theory Spec2Isabelle
  imports Main "HOL-Library.Word" "HOL-Library.Multiset"
begin

section \<open>Data model of bin-packing.c\<close>

text \<open>
  Every number of the program is an \<^verbatim>\<open>unsigned short int\<close>: a 16-bit word whose
  arithmetic wraps around. A heap array is modelled by the list of its cells; the
  \<^verbatim>\<open>count\<close> field that the C code keeps beside each array is kept beside the list as
  well, so that the two can be compared.
\<close>

type_synonym ushort = "16 word"

text \<open>\<^verbatim>\<open>struct bin\<close>: the array of numbers, the free space, the number of items.\<close>

record bin =
  itens :: "ushort list"
  left :: ushort
  count :: ushort

text \<open>\<^verbatim>\<open>struct bin_list\<close>: the array of bins and the number of bins.\<close>

record bin_list =
  itens_list :: "bin list"
  count_list :: ushort

text \<open>The global variables read by the packing functions.\<close>

record config =
  NUMBERS_QUANTITY :: ushort
  BIN_SIZE :: ushort

section \<open>Bins\<close>

text \<open>
  \<^verbatim>\<open>create_empty_bin\<close> (with a successful allocation): the free space is the bin size
  and the bin has no item. The pointer \<^verbatim>\<open>itens\<close> is left uninitialised by the C code:
  there is no cell to read, which is the empty list.
\<close>

definition create_empty_bin :: "config \<Rightarrow> bin" where
  "create_empty_bin cfg = \<lparr>itens = [], left = BIN_SIZE cfg, count = 0\<rparr>"

definition create_empty_bin_list :: bin_list where
  "create_empty_bin_list = \<lparr>itens_list = [], count_list = 0\<rparr>"

text \<open>
  \<^verbatim>\<open>insert_number_bin\<close>, returning the updated bin together with the C return value
  (0: inserted, 1: no room). When the number fits, the array is a fresh block if the
  bin is empty and otherwise the block reallocated to \<^verbatim>\<open>count + 1\<close> cells, which keeps
  the first \<^verbatim>\<open>count\<close> cells; the number is written at index \<^verbatim>\<open>count\<close>.
\<close>

definition insert_number_bin :: "bin \<Rightarrow> ushort \<Rightarrow> bin \<times> int" where
  "insert_number_bin b num =
     (if num \<le> left b then
        (let cells = (if count b = 0 then [] else take (unat (count b)) (itens b))
         in (\<lparr>itens = cells @ [num], left = left b - num, count = count b + 1\<rparr>, 0))
      else (b, 1))"

section \<open>The list of bins\<close>

text \<open>
  \<^verbatim>\<open>insert_bin_list\<close>, returning the updated list and the C return value. The list
  refuses a bin (return value 1, list unchanged) when it already holds more than
  \<^verbatim>\<open>NUMBERS_QUANTITY\<close> bins. Otherwise the array is a fresh block if the list is empty
  and the reallocated block (its first \<^verbatim>\<open>count\<close> cells kept) if not; the bin is copied to
  index \<^verbatim>\<open>count\<close> and \<^verbatim>\<open>count\<close> is incremented.
\<close>

definition insert_bin_list :: "config \<Rightarrow> bin_list \<Rightarrow> bin \<Rightarrow> bin_list \<times> int" where
  "insert_bin_list cfg list b =
     (if count_list list > NUMBERS_QUANTITY cfg then (list, 1)
      else
        (let cells = (if count_list list = 0 then []
                      else take (unat (count_list list)) (itens_list list))
         in (\<lparr>itens_list = cells @ [b], count_list = count_list list + 1\<rparr>, 0)))"

section \<open>Filling the bins\<close>

text \<open>
  The inner loop of \<^verbatim>\<open>fill_bins\<close>, from index \<^verbatim>\<open>j\<close> on: the number is offered to the
  bins in the order of the array; the flag \<^verbatim>\<open>hasInserted\<close> takes the return value of
  each attempt and the loop stops at the first 0. The indices are unsigned shorts, as in
  the C code. The cell \<^verbatim>\<open>itens[j]\<close> exists whenever the array has \<^verbatim>\<open>count\<close> cells.
\<close>

function scan_bins :: "ushort \<Rightarrow> bin_list \<Rightarrow> ushort \<Rightarrow> int \<Rightarrow> bin_list \<times> int" where
  "scan_bins num bins j hasInserted =
     (if j < count_list bins then
        (let r = insert_number_bin (itens_list bins ! unat j) num;
             bins' = bins\<lparr>itens_list := (itens_list bins)[unat j := fst r]\<rparr>
         in if snd r = 0 then (bins', snd r)
            else scan_bins num bins' (j + 1) (snd r))
      else (bins, hasInserted))"
  by pat_completeness auto
termination
proof (relation "measure (\<lambda>(num, bins, j, h). unat (count_list bins) - unat j)")
  show "wf (measure (\<lambda>(num, bins, j, h). unat (count_list bins) - unat j))"
    by simp
next
  fix num :: ushort and bins :: bin_list and j :: ushort and hasInserted :: int
    and r :: "bin \<times> int" and bins' :: bin_list
  assume lt: "j < count_list bins"
    and b: "bins' = bins\<lparr>itens_list := (itens_list bins)[unat j := fst r]\<rparr>"
  from lt have "unat (j + 1) = Suc (unat j)"
    by (metis add.commute add_diff_cancel_left' diff_0 linorder_not_le unatSuc
        word_order.extremum)
  with lt b show "((num, bins', j + 1, snd r), (num, bins, j, hasInserted))
      \<in> measure (\<lambda>(num, bins, j, h). unat (count_list bins) - unat j)"
    by (simp add: word_less_nat_alt)
qed

text \<open>
  The body of the outer loop for one number: the scan of the existing bins, then, when
  the flag is 1, a new bin that receives the number (the return value of that insertion
  is ignored by the C code) and is handed to \<^verbatim>\<open>insert_bin_list\<close>, whose return value
  becomes the flag. The state is the list of bins and the flag.
\<close>

definition fill_body :: "config \<Rightarrow> ushort \<Rightarrow> bin_list \<times> int \<Rightarrow> bin_list \<times> int" where
  "fill_body cfg num st =
     (let scanned = scan_bins num (fst st) 0 (snd st)
      in if snd scanned = 1 then
           (let b = create_empty_bin cfg;
                b' = fst (insert_number_bin b num)
            in insert_bin_list cfg (fst scanned) b')
         else scanned)"

text \<open>The outer loop, from index \<^verbatim>\<open>i\<close> on, over the first \<^verbatim>\<open>NUMBERS_QUANTITY\<close> cells.\<close>

function fill_loop :: "config \<Rightarrow> ushort list \<Rightarrow> ushort \<Rightarrow> bin_list \<times> int \<Rightarrow> bin_list \<times> int" where
  "fill_loop cfg values i st =
     (if i < NUMBERS_QUANTITY cfg
      then fill_loop cfg values (i + 1) (fill_body cfg (values ! unat i) st)
      else st)"
  by pat_completeness auto
termination
proof (relation "measure (\<lambda>(cfg, values, i, st). unat (NUMBERS_QUANTITY cfg) - unat i)")
  show "wf (measure (\<lambda>(cfg, values, i, st). unat (NUMBERS_QUANTITY cfg) - unat i))"
    by simp
next
  fix cfg :: config and "values" :: "ushort list" and i :: ushort and st :: "bin_list \<times> int"
  assume lt: "i < NUMBERS_QUANTITY cfg"
  from lt have "unat (i + 1) = Suc (unat i)"
    by (metis add.commute add_diff_cancel_left' diff_0 linorder_not_le unatSuc
        word_order.extremum)
  with lt show "((cfg, values, i + 1, fill_body cfg (values ! unat i) st), (cfg, values, i, st))
      \<in> measure (\<lambda>(cfg, values, i, st). unat (NUMBERS_QUANTITY cfg) - unat i)"
    by (simp add: word_less_nat_alt)
qed

text \<open>\<^verbatim>\<open>fill_bins\<close>: the flag starts at 1; the final flag is the return value.\<close>

definition fill_bins :: "config \<Rightarrow> ushort list \<Rightarrow> bin_list \<Rightarrow> bin_list \<times> int" where
  "fill_bins cfg values bins = fill_loop cfg values 0 (bins, 1)"

section \<open>Vocabulary of the properties\<close>

text \<open>
  The state of \<^verbatim>\<open>fill_bins\<close>, started on the empty list, after \<^verbatim>\<open>k\<close> rounds of its outer
  loop, and the bins of that state. Only \<^verbatim>\<open>insert_bin_list\<close>, at the end of a round,
  changes the number of bins, and only one bin changes in a round, so these are all the
  states that matter during a run.
\<close>

definition fill_state_after :: "config \<Rightarrow> ushort list \<Rightarrow> nat \<Rightarrow> bin_list \<times> int" where
  "fill_state_after cfg values k =
     foldl (\<lambda>st num. fill_body cfg num st) (create_empty_bin_list, 1) (take k values)"

definition bins_after :: "config \<Rightarrow> ushort list \<Rightarrow> nat \<Rightarrow> bin list" where
  "bins_after cfg values k = itens_list (fst (fill_state_after cfg values k))"

text \<open>
  First fit as the specification words it: the first bin of the sequence with enough
  free space receives the number; no bin does when none has enough.
\<close>

fun first_fit :: "ushort \<Rightarrow> bin list \<Rightarrow> bin list option" where
  "first_fit num [] = None"
| "first_fit num (b # bs) =
     (if num \<le> left b then Some (fst (insert_number_bin b num) # bs)
      else map_option ((#) b) (first_fit num bs))"

text \<open>
  A well-formed bin: the array has \<^verbatim>\<open>count\<close> cells, and the free space plus the sum
  of the items (as natural numbers, without wrap-around) is the bin size.
\<close>

definition bin_ok :: "config \<Rightarrow> bin \<Rightarrow> bool" where
  "bin_ok cfg b \<longleftrightarrow>
     length (itens b) = unat (count b)
   \<and> unat (left b) + sum_list (map unat (itens b)) = unat (BIN_SIZE cfg)"

text \<open>
  The loop invariant of \<^verbatim>\<open>fill_bins\<close> after the numbers \<^verbatim>\<open>vs\<close>: the list is well
  formed and has at most one bin per number, every bin is well formed, the bins hold
  exactly the numbers that are at most the bin size, and the flag is 1 before the first
  number and 0 afterwards.
\<close>

definition state_ok :: "config \<Rightarrow> ushort list \<Rightarrow> bin_list \<times> int \<Rightarrow> bool" where
  "state_ok cfg vs st \<longleftrightarrow>
     length (itens_list (fst st)) = unat (count_list (fst st))
   \<and> length (itens_list (fst st)) \<le> length vs
   \<and> (\<forall>b\<in>set (itens_list (fst st)). bin_ok cfg b)
   \<and> mset (concat (map itens (itens_list (fst st)))) = mset (filter (\<lambda>v. v \<le> BIN_SIZE cfg) vs)
   \<and> snd st = (if vs = [] then 1 else 0)
   \<and> (vs \<noteq> [] \<longrightarrow> itens_list (fst st) \<noteq> [])"

text \<open>
  The bins of an earlier state are still there in a later one, at the same indices,
  each with its earlier items first, none with more free space than before.
\<close>

definition remaining_not_increased :: "bin list \<Rightarrow> bin list \<Rightarrow> bool" where
  "remaining_not_increased old new \<longleftrightarrow>
     length old \<le> length new
   \<and> (\<forall>n<length old.
        left (new ! n) \<le> left (old ! n)
      \<and> take (length (itens (old ! n))) (itens (new ! n)) = itens (old ! n))"

section \<open>Sorting the numbers\<close>

text \<open>
  \<^verbatim>\<open>comparison_numbers\<close> reads its two arguments as \<^verbatim>\<open>int\<close> (32 bits) and returns the
  second minus the first. The C standard leaves an overflow of that subtraction
  undefined; the model wraps around, as two's complement machines do.
\<close>

type_synonym c_int = "32 word"

definition comparison_numbers :: "c_int \<Rightarrow> c_int \<Rightarrow> int" where
  "comparison_numbers a b = sint (b - a)"

text \<open>
  \<^verbatim>\<open>qsort\<close> belongs to the C library, not to the program. An insertion sort stands
  for it: it only moves whole elements, and it puts an element before the first one the
  comparison does not place it after. It gives the array that the library gives
  wherever the comparison is a linear order on the elements; where the subtraction of
  \<^verbatim>\<open>comparison_numbers\<close> overflows, the comparison is not transitive, the C standard
  promises no order, and the library's array may differ from this one. The theorems
  below that evaluate the sort do so at inputs where nothing overflows; the lemma on two
  elements only uses that a sort leaves them in one of their two orders.
\<close>

fun qsort_insert :: "('a \<Rightarrow> 'a \<Rightarrow> int) \<Rightarrow> 'a \<Rightarrow> 'a list \<Rightarrow> 'a list" where
  "qsort_insert cmp x [] = [x]"
| "qsort_insert cmp x (y # ys) =
     (if cmp x y \<le> 0 then x # y # ys else y # qsort_insert cmp x ys)"

definition qsort :: "('a \<Rightarrow> 'a \<Rightarrow> int) \<Rightarrow> 'a list \<Rightarrow> 'a list" where
  "qsort cmp xs = foldr (qsort_insert cmp) xs []"

text \<open>
  \<^verbatim>\<open>sort_numbers_array\<close> calls \<^verbatim>\<open>qsort\<close> on \<^verbatim>\<open>NUMBERS_QUANTITY\<close> elements of
  \<^verbatim>\<open>sizeof(int)\<close> bytes each, while the array holds unsigned shorts of two bytes. The
  call therefore sorts the first \<^verbatim>\<open>2 * NUMBERS_QUANTITY\<close> cells of the allocated block,
  taken two by two as one 32-bit integer: low half first on a little-endian machine,
  high half first on a big-endian one. The block is the list of all its cells: the
  numbers, then the cells that the program never wrote.
\<close>

definition int_of_cells :: "bool \<Rightarrow> ushort \<Rightarrow> ushort \<Rightarrow> c_int" where
  "int_of_cells big_endian c0 c1 =
     (if big_endian then ucast c1 + 65536 * ucast c0 else ucast c0 + 65536 * ucast c1)"

fun ints_of_cells :: "bool \<Rightarrow> ushort list \<Rightarrow> c_int list" where
  "ints_of_cells big_endian (c0 # c1 # cells) =
     int_of_cells big_endian c0 c1 # ints_of_cells big_endian cells"
| "ints_of_cells big_endian cells = []"

fun cells_of_ints :: "bool \<Rightarrow> c_int list \<Rightarrow> ushort list" where
  "cells_of_ints big_endian [] = []"
| "cells_of_ints big_endian (w # ws) =
     (if big_endian then [ucast (w div 65536), ucast w] else [ucast w, ucast (w div 65536)])
       @ cells_of_ints big_endian ws"

definition sort_numbers_array :: "bool \<Rightarrow> config \<Rightarrow> ushort list \<Rightarrow> ushort list" where
  "sort_numbers_array big_endian cfg block =
     (let n = unat (NUMBERS_QUANTITY cfg)
      in cells_of_ints big_endian
           (qsort comparison_numbers (ints_of_cells big_endian (take (2 * n) block)))
           @ drop (2 * n) block)"

section \<open>Allocation failures and the end of the process\<close>

text \<open>
  How the process ends: \<^verbatim>\<open>exit\<close> or the return of \<^verbatim>\<open>main\<close> with a status, or a
  fault, where the C code divides by zero, writes through a null pointer or frees a
  pointer that was never set.
\<close>

datatype fault = Division_by_zero | Null_pointer_write | Invalid_free

datatype outcome = Exit int | Fault fault

text \<open>
  The functions above assume that every \<^verbatim>\<open>malloc\<close> and \<^verbatim>\<open>realloc\<close> succeeds. The
  versions below take the answers of the allocator as an oracle: \<^verbatim>\<open>ok n\<close> tells whether
  the allocation number \<^verbatim>\<open>n\<close> of the packing phase succeeds, and the number of the next
  allocation is passed along. A failed \<^verbatim>\<open>malloc\<close> is checked by the C code and ends the
  process with the status written there; the result of \<^verbatim>\<open>realloc\<close> is not checked, and
  the next statement writes through the null pointer.
\<close>

type_synonym 'a alloc = "(nat \<Rightarrow> bool) \<Rightarrow> nat \<Rightarrow> outcome + 'a \<times> nat"

definition create_empty_bin_alloc :: "config \<Rightarrow> bin alloc" where
  "create_empty_bin_alloc cfg ok n =
     (if ok n then Inr (create_empty_bin cfg, Suc n) else Inl (Exit 1))"

definition create_empty_bin_list_alloc :: "bin_list alloc" where
  "create_empty_bin_list_alloc ok n =
     (if ok n then Inr (create_empty_bin_list, Suc n) else Inl (Exit 0))"

definition insert_number_bin_alloc :: "bin \<Rightarrow> ushort \<Rightarrow> (bin \<times> int) alloc" where
  "insert_number_bin_alloc b num ok n =
     (if num \<le> left b then
        (if ok n then Inr (insert_number_bin b num, Suc n)
         else if count b = 0 then Inl (Exit 1)
         else Inl (Fault Null_pointer_write))
      else Inr (insert_number_bin b num, n))"

definition insert_bin_list_alloc :: "config \<Rightarrow> bin_list \<Rightarrow> bin \<Rightarrow> (bin_list \<times> int) alloc" where
  "insert_bin_list_alloc cfg list b ok n =
     (if count_list list > NUMBERS_QUANTITY cfg then Inr (insert_bin_list cfg list b, n)
      else if ok n then Inr (insert_bin_list cfg list b, Suc n)
      else if count_list list = 0 then Inl (Exit 1)
      else Inl (Fault Null_pointer_write))"

function scan_bins_alloc :: "ushort \<Rightarrow> bin_list \<Rightarrow> ushort \<Rightarrow> int \<Rightarrow> (bin_list \<times> int) alloc" where
  "scan_bins_alloc num bins j hasInserted ok n =
     (if j < count_list bins then
        (case insert_number_bin_alloc (itens_list bins ! unat j) num ok n of
           Inl e \<Rightarrow> Inl e
         | Inr (r, n') \<Rightarrow>
             (let bins' = bins\<lparr>itens_list := (itens_list bins)[unat j := fst r]\<rparr>
              in if snd r = 0 then Inr ((bins', snd r), n')
                 else scan_bins_alloc num bins' (j + 1) (snd r) ok n'))
      else Inr ((bins, hasInserted), n))"
  by pat_completeness auto
termination
proof (relation "measure (\<lambda>(num, bins, j, h, ok, n). unat (count_list bins) - unat j)")
  show "wf (measure (\<lambda>(num, bins, j, h, ok, n). unat (count_list bins) - unat j))"
    by simp
next
  fix num :: ushort and bins :: bin_list and j :: ushort and hasInserted :: int
    and ok :: "nat \<Rightarrow> bool" and n :: nat and r :: "bin \<times> int" and n' :: nat
    and bins' :: bin_list
  assume lt: "j < count_list bins"
    and b: "bins' = bins\<lparr>itens_list := (itens_list bins)[unat j := fst r]\<rparr>"
  from lt have "unat (j + 1) = Suc (unat j)"
    by (metis add.commute add_diff_cancel_left' diff_0 linorder_not_le unatSuc
        word_order.extremum)
  with lt b show "((num, bins', j + 1, snd r, ok, n'), (num, bins, j, hasInserted, ok, n))
      \<in> measure (\<lambda>(num, bins, j, h, ok, n). unat (count_list bins) - unat j)"
    by (simp add: word_less_nat_alt)
qed

definition fill_body_alloc :: "config \<Rightarrow> ushort \<Rightarrow> bin_list \<times> int \<Rightarrow> (bin_list \<times> int) alloc" where
  "fill_body_alloc cfg num st ok n =
     (case scan_bins_alloc num (fst st) 0 (snd st) ok n of
        Inl e \<Rightarrow> Inl e
      | Inr (scanned, n1) \<Rightarrow>
          if snd scanned = 1 then
            (case create_empty_bin_alloc cfg ok n1 of
               Inl e \<Rightarrow> Inl e
             | Inr (b, n2) \<Rightarrow>
                 (case insert_number_bin_alloc b num ok n2 of
                    Inl e \<Rightarrow> Inl e
                  | Inr (r, n3) \<Rightarrow> insert_bin_list_alloc cfg (fst scanned) (fst r) ok n3))
          else Inr (scanned, n1))"

function fill_loop_alloc :: "config \<Rightarrow> ushort list \<Rightarrow> ushort \<Rightarrow> bin_list \<times> int \<Rightarrow> (bin_list \<times> int) alloc" where
  "fill_loop_alloc cfg values i st ok n =
     (if i < NUMBERS_QUANTITY cfg then
        (case fill_body_alloc cfg (values ! unat i) st ok n of
           Inl e \<Rightarrow> Inl e
         | Inr (st', n') \<Rightarrow> fill_loop_alloc cfg values (i + 1) st' ok n')
      else Inr (st, n))"
  by pat_completeness auto
termination
proof (relation "measure (\<lambda>(cfg, values, i, st, ok, n). unat (NUMBERS_QUANTITY cfg) - unat i)")
  show "wf (measure (\<lambda>(cfg, values, i, st, ok, n). unat (NUMBERS_QUANTITY cfg) - unat i))"
    by simp
next
  fix cfg :: config and "values" :: "ushort list" and i :: ushort and st st' :: "bin_list \<times> int"
    and ok :: "nat \<Rightarrow> bool" and n n' :: nat
  assume lt: "i < NUMBERS_QUANTITY cfg"
  from lt have "unat (i + 1) = Suc (unat i)"
    by (metis add.commute add_diff_cancel_left' diff_0 linorder_not_le unatSuc
        word_order.extremum)
  with lt show "((cfg, values, i + 1, st', ok, n'), (cfg, values, i, st, ok, n))
      \<in> measure (\<lambda>(cfg, values, i, st, ok, n). unat (NUMBERS_QUANTITY cfg) - unat i)"
    by (simp add: word_less_nat_alt)
qed

definition fill_bins_alloc :: "config \<Rightarrow> ushort list \<Rightarrow> bin_list \<Rightarrow> (bin_list \<times> int) alloc" where
  "fill_bins_alloc cfg values bins ok n = fill_loop_alloc cfg values 0 (bins, 1) ok n"

section \<open>Reports and main\<close>

text \<open>
  \<^verbatim>\<open>print_numbers\<close>: the loop prints the numbers and adds them up in an unsigned short;
  the last line prints the loop counter and \<^verbatim>\<open>total / NUMBERS_QUANTITY\<close>, an integer
  division that nothing guards.
\<close>

function print_numbers_loop ::
  "config \<Rightarrow> ushort list \<Rightarrow> ushort \<Rightarrow> ushort list \<times> ushort \<Rightarrow> ushort \<times> ushort list \<times> ushort" where
  "print_numbers_loop cfg values i acc =
     (if i < NUMBERS_QUANTITY cfg
      then print_numbers_loop cfg values (i + 1)
             (fst acc @ [values ! unat i], snd acc + values ! unat i)
      else (i, acc))"
  by pat_completeness auto
termination
proof (relation "measure (\<lambda>(cfg, values, i, acc). unat (NUMBERS_QUANTITY cfg) - unat i)")
  show "wf (measure (\<lambda>(cfg, values, i, acc). unat (NUMBERS_QUANTITY cfg) - unat i))"
    by simp
next
  fix cfg :: config and "values" :: "ushort list" and i :: ushort and acc :: "ushort list \<times> ushort"
  assume lt: "i < NUMBERS_QUANTITY cfg"
  from lt have "unat (i + 1) = Suc (unat i)"
    by (metis add.commute add_diff_cancel_left' diff_0 linorder_not_le unatSuc
        word_order.extremum)
  with lt show "((cfg, values, i + 1, fst acc @ [values ! unat i], snd acc + values ! unat i),
       (cfg, values, i, acc))
      \<in> measure (\<lambda>(cfg, values, i, acc). unat (NUMBERS_QUANTITY cfg) - unat i)"
    by (simp add: word_less_nat_alt)
qed

record numbers_report =
  numbers :: "ushort list"
  total_field :: ushort
  average_field :: int

definition print_numbers :: "config \<Rightarrow> ushort list \<Rightarrow> fault + numbers_report" where
  "print_numbers cfg values =
     (let r = print_numbers_loop cfg values 0 ([], 0);
          i = fst r; total = snd (snd r)
      in if NUMBERS_QUANTITY cfg = 0 then Inl Division_by_zero
         else Inr \<lparr>numbers = fst (snd r), total_field = i,
                   average_field = uint total div uint (NUMBERS_QUANTITY cfg)\<rparr>)"

text \<open>\<^verbatim>\<open>print_bin\<close> and \<^verbatim>\<open>print_list_bins\<close>: one line per bin, with its index.\<close>

record bin_report =
  index_field :: ushort
  left_field :: ushort
  count_field :: ushort
  itens_field :: "ushort list"

definition print_bin :: "ushort \<Rightarrow> bin \<Rightarrow> bin_report" where
  "print_bin i b = \<lparr>index_field = i, left_field = left b, count_field = count b,
                    itens_field = take (unat (count b)) (itens b)\<rparr>"

definition print_list_bins :: "bin_list \<Rightarrow> bin_report list" where
  "print_list_bins bins =
     map (\<lambda>i. print_bin (of_nat i) (itens_list bins ! i)) [0..<unat (count_list bins)]"

datatype printed = Usage | Numbers numbers_report | Bins "bin_report list"

text \<open>
  The loop of \<^verbatim>\<open>main\<close> that copies the numbers given on the command line. Its counter
  is an unsigned short compared with the \<^verbatim>\<open>int\<close> \<^verbatim>\<open>argc - 5\<close>: with more than 65535
  numbers the counter wraps around and the loop does not end, which is the value
  \<^verbatim>\<open>None\<close>. The list \<^verbatim>\<open>argv\<close> holds the result of \<^verbatim>\<open>atoi\<close> on each argument, at the index
  of the argument.
\<close>

partial_function (option) read_arguments ::
  "int \<Rightarrow> int list \<Rightarrow> ushort \<Rightarrow> ushort list \<Rightarrow> ushort list option" where
  "read_arguments argc argv i values =
     (if uint i < argc - 5
      then read_arguments argc argv (i + 1)
             (values[unat i := word_of_int (argv ! (unat i + 5))])
      else Some values)"

declare read_arguments.simps [code]

text \<open>
  \<^verbatim>\<open>create_numbers_array\<close> stores one random number per cell. The numbers come from
  \<^verbatim>\<open>rand\<close> and floating-point arithmetic, which are not modelled: the stored numbers are
  an input.
\<close>

definition create_numbers_array :: "config \<Rightarrow> (nat \<Rightarrow> ushort) \<Rightarrow> ushort list \<Rightarrow> ushort list" where
  "create_numbers_array cfg rnd values =
     map rnd [0..<unat (NUMBERS_QUANTITY cfg)] @ drop (unat (NUMBERS_QUANTITY cfg)) values"

text \<open>
  What the run depends on besides its arguments: whether the block of the numbers is
  allocated, the content of its cells before the program writes them, the random
  numbers, the answers of the allocator from \<^verbatim>\<open>create_empty_bin_list\<close> on, and whether
  \<^verbatim>\<open>free\<close> accepts the pointer of a bin that never received a number (the field
  \<^verbatim>\<open>itens\<close> of such a bin was never set), and the byte order of the machine.
\<close>

record environment =
  values_allocated :: bool
  garbage :: "nat \<Rightarrow> ushort"
  random_numbers :: "nat \<Rightarrow> ushort"
  allocated :: "nat \<Rightarrow> bool"
  unset_pointer_freeable :: bool
  big_endian :: bool

text \<open>
  \<^verbatim>\<open>free_bins\<close> frees the array of every bin of the list; a bin with no item still has
  the pointer that \<^verbatim>\<open>create_empty_bin\<close> left unset.
\<close>

definition free_bins :: "environment \<Rightarrow> bin_list \<Rightarrow> fault option" where
  "free_bins env bins =
     (if list_ex (\<lambda>b. count b = 0) (take (unat (count_list bins)) (itens_list bins))
         \<and> \<not> unset_pointer_freeable env
      then Some Invalid_free else None)"

text \<open>
  The part of \<^verbatim>\<open>main\<close> after the numbers are in place: the list of bins, the sort, the
  report of the numbers, the packing, the report of the bins, the release of the memory
  and the return of 0.
\<close>

definition pack_and_report :: "config \<Rightarrow> ushort list \<Rightarrow> environment \<Rightarrow> outcome \<times> printed list" where
  "pack_and_report cfg block env =
     (case create_empty_bin_list_alloc (allocated env) 0 of
        Inl e \<Rightarrow> (e, [])
      | Inr (bins, n) \<Rightarrow>
          (let sorted = sort_numbers_array (big_endian env) cfg block
           in case print_numbers cfg sorted of
                Inl f \<Rightarrow> (Fault f, [])
              | Inr report \<Rightarrow>
                  (case fill_bins_alloc cfg sorted bins (allocated env) n of
                     Inl e \<Rightarrow> (e, [Numbers report])
                   | Inr (st, n') \<Rightarrow>
                       (case free_bins env (fst st) of
                          Some f \<Rightarrow> Fault f
                        | None \<Rightarrow> Exit 0,
                        [Numbers report, Bins (print_list_bins (fst st))]))))"

text \<open>
  \<^verbatim>\<open>main\<close>. With explicit numbers the block has \<^verbatim>\<open>sizeof(int) * argc - 5\<close> bytes and is
  written before the test of the pointer; without, it has \<^verbatim>\<open>sizeof(int)\<close> bytes per
  number.
\<close>

definition main :: "int \<Rightarrow> int list \<Rightarrow> environment \<Rightarrow> (outcome \<times> printed list) option" where
  "main argc argv env =
     (if argc < 5 then Some (Exit 1, [Usage])
      else
        (let quantity = word_of_int (argv ! 1); size = word_of_int (argv ! 2)
         in if argc > 5 then
              (if \<not> values_allocated env then Some (Fault Null_pointer_write, [])
               else
                 (case read_arguments argc argv 0
                         (map (garbage env) [0..<nat ((4 * argc - 5) div 2)]) of
                    None \<Rightarrow> None
                  | Some block \<Rightarrow>
                      Some (pack_and_report
                        \<lparr>NUMBERS_QUANTITY = word_of_int (argc - 5), BIN_SIZE = size\<rparr> block env)))
            else
              (let cfg = \<lparr>NUMBERS_QUANTITY = quantity, BIN_SIZE = size\<rparr>
               in if \<not> values_allocated env then
                    (if quantity = 0 then Some (Exit 1, [])
                     else Some (Fault Null_pointer_write, []))
                  else Some (pack_and_report cfg
                         (create_numbers_array cfg (random_numbers env)
                            (map (garbage env) [0..<2 * unat quantity])) env))))"

declare scan_bins.simps [simp del]
declare fill_loop.simps [simp del]
declare scan_bins_alloc.simps [simp del]
declare fill_loop_alloc.simps [simp del]
declare print_numbers_loop.simps [simp del]

lemmas eval_simps = fill_bins_def fill_loop.simps fill_body_def scan_bins.simps
  insert_bin_list_def insert_number_bin_def create_empty_bin_def create_empty_bin_list_def
  fill_state_after_def bins_after_def Let_def

lemmas main_simps = main_def pack_and_report_def create_empty_bin_list_alloc_def
  create_empty_bin_alloc_def insert_number_bin_alloc_def insert_bin_list_alloc_def
  fill_bins_alloc_def fill_loop_alloc.simps fill_body_alloc_def scan_bins_alloc.simps
  print_numbers_def print_numbers_loop.simps print_list_bins_def print_bin_def
  create_numbers_array_def sort_numbers_array_def qsort_def comparison_numbers_def
  int_of_cells_def free_bins_def read_arguments.simps

section \<open>The inner loop is first fit\<close>

lemma unat_inc: "x < (y::'a::len word) \<Longrightarrow> unat (x + 1) = Suc (unat x)"
  by (metis add.commute add_diff_cancel_left' diff_0 linorder_not_le unatSuc
      word_order.extremum)

lemma insert_number_bin_fits [simp]:
  "num \<le> left b \<Longrightarrow> snd (insert_number_bin b num) = 0"
  by (simp add: insert_number_bin_def Let_def)

lemma insert_number_bin_full [simp]:
  "\<not> num \<le> left b \<Longrightarrow> insert_number_bin b num = (b, 1)"
  by (simp add: insert_number_bin_def)


lemma scan_bins_first_fit:
  "length (itens_list bl) = unat (count_list bl) \<Longrightarrow> j \<le> count_list bl \<Longrightarrow>
   scan_bins num bl j h =
     (case first_fit num (drop (unat j) (itens_list bl)) of
        Some bs' \<Rightarrow> (bl\<lparr>itens_list := take (unat j) (itens_list bl) @ bs'\<rparr>, 0)
      | None \<Rightarrow> (bl, if j < count_list bl then 1 else h))"
proof (induction num bl j h rule: scan_bins.induct)
  case (1 num bins j hasInserted)
  let ?its = "itens_list bins"
  show ?case
  proof (cases "j < count_list bins")
    case False
    with "1.prems" have "drop (unat j) ?its = []"
      by (simp add: word_less_nat_alt)
    with False show ?thesis
      by (subst scan_bins.simps) simp
  next
    case lt: True
    then have jlen: "unat j < length ?its"
      using "1.prems" by (simp add: word_less_nat_alt)
    then have dr: "drop (unat j) ?its = ?its ! unat j # drop (Suc (unat j)) ?its"
      by (simp add: Cons_nth_drop_Suc)
    have inc: "unat (j + 1) = Suc (unat j)"
      using lt by (rule unat_inc)
    show ?thesis
    proof (cases "num \<le> left (?its ! unat j)")
      case True
      then show ?thesis
        using lt dr jlen
        by (subst scan_bins.simps) (simp add: Let_def upd_conv_take_nth_drop)
    next
      case False
      have same: "bins\<lparr>itens_list := ?its[unat j := ?its ! unat j]\<rparr> = bins"
        by simp
      have le: "j + 1 \<le> count_list bins"
        using lt by (simp add: inc_le)
      have r: "insert_number_bin (?its ! unat j) num = (?its ! unat j, 1)"
        using False by simp
      have "scan_bins num (bins\<lparr>itens_list := ?its[unat j := fst (?its ! unat j, 1::int)]\<rparr>)
              (j + 1) (snd (?its ! unat j, 1::int)) =
          (case first_fit num (drop (unat (j + 1))
                 (itens_list (bins\<lparr>itens_list := ?its[unat j := fst (?its ! unat j, 1::int)]\<rparr>))) of
             None \<Rightarrow> (bins\<lparr>itens_list := ?its[unat j := fst (?its ! unat j, 1::int)]\<rparr>,
                 if j + 1 < count_list (bins\<lparr>itens_list := ?its[unat j := fst (?its ! unat j, 1::int)]\<rparr>)
                 then 1 else snd (?its ! unat j, 1::int))
           | Some bs' \<Rightarrow> (bins\<lparr>itens_list := ?its[unat j := fst (?its ! unat j, 1::int)]\<rparr>
                 \<lparr>itens_list := take (unat (j + 1))
                   (itens_list (bins\<lparr>itens_list := ?its[unat j := fst (?its ! unat j, 1::int)]\<rparr>)) @ bs'\<rparr>, 0))"
        using lt "1.prems"(1) le
        by (intro "1.IH" [OF lt _ refl]) (simp_all add: r)
      then have IH: "scan_bins num bins (j + 1) 1 =
          (case first_fit num (drop (unat (j + 1)) ?its) of
             None \<Rightarrow> (bins, 1)
           | Some bs' \<Rightarrow> (bins\<lparr>itens_list := take (unat (j + 1)) ?its @ bs'\<rparr>, 0))"
        by (simp split: option.splits)
      show ?thesis
        using lt False dr jlen
        by (subst scan_bins.simps)
           (simp add: Let_def IH inc take_Suc_conv_app_nth split: option.splits)
    qed
  qed
qed


lemma first_fit_length: "first_fit v bs = Some bs' \<Longrightarrow> length bs' = length bs"
  by (induction bs arbitrary: bs') (auto split: if_splits)

lemma first_fit_None_iff: "first_fit v bs = None \<longleftrightarrow> (\<forall>b\<in>set bs. \<not> v \<le> left b)"
  by (induction bs) auto

lemma first_fit_Some_index:
  "first_fit v bs = Some bs' \<Longrightarrow>
   \<exists>j<length bs. v \<le> left (bs ! j) \<and> (\<forall>i<j. \<not> v \<le> left (bs ! i))
      \<and> bs' = bs[j := fst (insert_number_bin (bs ! j) v)]"
proof (induction bs arbitrary: bs')
  case Nil
  then show ?case by simp
next
  case (Cons b bs)
  show ?case
  proof (cases "v \<le> left b")
    case True
    with Cons.prems have "bs' = (b # bs)[0 := fst (insert_number_bin ((b # bs) ! 0) v)]"
      by auto
    with True show ?thesis by (intro exI [of _ 0]) simp
  next
    case False
    with Cons.prems obtain cs where cs: "first_fit v bs = Some cs" and bs': "bs' = b # cs"
      by auto
    from Cons.IH [OF cs] obtain j where j: "j < length bs" "v \<le> left (bs ! j)"
      "\<forall>i<j. \<not> v \<le> left (bs ! i)" "cs = bs[j := fst (insert_number_bin (bs ! j) v)]"
      by blast
    have "\<forall>i<Suc j. \<not> v \<le> left ((b # bs) ! i)"
      using False j(3) by (auto simp: less_Suc_eq_0_disj)
    with j bs' show ?thesis
      by (intro exI [of _ "Suc j"]) simp
  qed
qed

lemma first_fit_at:
  "j < length bs \<Longrightarrow> v \<le> left (bs ! j) \<Longrightarrow> \<forall>i<j. \<not> v \<le> left (bs ! i) \<Longrightarrow>
   first_fit v bs = Some (bs[j := fst (insert_number_bin (bs ! j) v)])"
proof (induction bs arbitrary: j)
  case Nil
  then show ?case by simp
next
  case (Cons b bs)
  show ?case
  proof (cases j)
    case 0
    with Cons.prems show ?thesis by simp
  next
    case (Suc m)
    with Cons.prems have "\<not> v \<le> left b" by auto
    moreover have "first_fit v bs = Some (bs[m := fst (insert_number_bin (bs ! m) v)])"
      using Cons.prems Suc by (intro Cons.IH) auto
    ultimately show ?thesis using Suc by simp
  qed
qed

lemma fill_body_first_fit:
  assumes "length (itens_list bl) = unat (count_list bl)"
  shows "fill_body cfg v (bl, h) =
     (case first_fit v (itens_list bl) of
        Some bs' \<Rightarrow> (bl\<lparr>itens_list := bs'\<rparr>, 0)
      | None \<Rightarrow>
          if itens_list bl \<noteq> [] \<or> h = 1
          then insert_bin_list cfg bl (fst (insert_number_bin (create_empty_bin cfg) v))
          else (bl, h))"
proof -
  have ne: "0 < count_list bl \<longleftrightarrow> itens_list bl \<noteq> []"
    using assms by (auto simp: word_greater_zero_iff unat_eq_0)
  have "scan_bins v bl 0 h =
     (case first_fit v (itens_list bl) of
        Some bs' \<Rightarrow> (bl\<lparr>itens_list := bs'\<rparr>, 0)
      | None \<Rightarrow> (bl, if 0 < count_list bl then 1 else h))"
    using scan_bins_first_fit [OF assms, of 0 v h] by (simp split: option.splits)
  then show ?thesis
    using ne by (auto simp: fill_body_def Let_def split: option.splits)
qed

section \<open>The loop invariant\<close>

lemma unat_inc_bounded:
  "unat (c::ushort) < 65535 \<Longrightarrow> unat (c + 1) = Suc (unat c)"
proof -
  assume "unat c < 65535"
  then have "c < 65535" by (simp add: word_less_nat_alt)
  then show ?thesis by (rule unat_inc)
qed

lemma bin_ok_insert:
  assumes "bin_ok cfg b" "v \<le> left b" "length (itens b) < 65535"
  shows "bin_ok cfg (fst (insert_number_bin b v))"
    and "itens (fst (insert_number_bin b v)) = itens b @ [v]"
proof -
  have cells: "(if count b = 0 then [] else take (unat (count b)) (itens b)) = itens b"
    using assms(1) by (auto simp: bin_ok_def)
  have sub: "unat (left b - v) + unat v = unat (left b)"
    using assms(2) by (simp add: unat_sub word_le_nat_alt)
  have inc: "unat (count b + 1) = Suc (unat (count b))"
    using assms(1,3) by (intro unat_inc_bounded) (simp add: bin_ok_def)
  show "itens (fst (insert_number_bin b v)) = itens b @ [v]"
    using assms(2) cells by (simp add: insert_number_bin_def Let_def)
  show "bin_ok cfg (fst (insert_number_bin b v))"
    using assms(1,2) cells sub inc by (simp add: insert_number_bin_def Let_def bin_ok_def)
qed

lemma bin_ok_left_le: "bin_ok cfg b \<Longrightarrow> left b \<le> BIN_SIZE cfg"
  by (simp add: bin_ok_def word_le_nat_alt)

lemma bin_ok_new:
  "bin_ok cfg (fst (insert_number_bin (create_empty_bin cfg) v))"
  "itens (fst (insert_number_bin (create_empty_bin cfg) v)) = (if v \<le> BIN_SIZE cfg then [v] else [])"
proof -
  have e: "bin_ok cfg (create_empty_bin cfg)"
    by (simp add: bin_ok_def create_empty_bin_def)
  show "itens (fst (insert_number_bin (create_empty_bin cfg) v)) = (if v \<le> BIN_SIZE cfg then [v] else [])"
    by (simp add: insert_number_bin_def create_empty_bin_def)
  show "bin_ok cfg (fst (insert_number_bin (create_empty_bin cfg) v))"
  proof (cases "v \<le> BIN_SIZE cfg")
    case True
    then show ?thesis
      using bin_ok_insert(1) [OF e, of v] by (simp add: create_empty_bin_def)
  next
    case False
    then show ?thesis using e by (simp add: create_empty_bin_def)
  qed
qed

lemma mset_concat_update:
  "j < length bs \<Longrightarrow> itens b' = itens (bs ! j) @ [v] \<Longrightarrow>
   mset (concat (map itens (bs[j := b']))) = add_mset v (mset (concat (map itens bs)))"
proof (induction bs arbitrary: j)
  case Nil
  then show ?case by simp
next
  case (Cons b bs)
  then show ?case by (cases j) auto
qed

lemma length_itens_le_concat:
  "b \<in> set bs \<Longrightarrow> length (itens b) \<le> length (concat (map itens bs))"
  by (induction bs) auto

lemma state_ok_step:
  assumes ok: "state_ok cfg vs st" and lt: "length vs < unat (NUMBERS_QUANTITY cfg)"
  shows "state_ok cfg (vs @ [v]) (fill_body cfg v st)"
proof -
  obtain bl h where st: "st = (bl, h)" by (cases st)
  let ?bs = "itens_list bl"
  from ok st have wf: "length ?bs = unat (count_list bl)"
    and len: "length ?bs \<le> length vs"
    and bins: "\<forall>b\<in>set ?bs. bin_ok cfg b"
    and ms: "mset (concat (map itens ?bs)) = mset (filter (\<lambda>v. v \<le> BIN_SIZE cfg) vs)"
    and h: "h = (if vs = [] then 1 else 0)"
    and ne: "vs \<noteq> [] \<longrightarrow> ?bs \<noteq> []"
    by (simp_all add: state_ok_def)
  have "unat (NUMBERS_QUANTITY cfg) < 2 ^ 16"
    using unsigned_less [of "NUMBERS_QUANTITY cfg", where 'a = nat] by simp
  then have nq: "unat (NUMBERS_QUANTITY cfg) \<le> 65535"
    by simp
  have total: "length (concat (map itens ?bs)) \<le> length vs"
  proof -
    have "length (concat (map itens ?bs)) = size (mset (concat (map itens ?bs)))"
      by simp
    also have "\<dots> = length (filter (\<lambda>v. v \<le> BIN_SIZE cfg) vs)"
      by (simp only: ms size_mset)
    also have "\<dots> \<le> length vs" by simp
    finally show ?thesis .
  qed
  show ?thesis
  proof (cases "first_fit v ?bs")
    case (Some bs')
    then obtain j where j: "j < length ?bs" "v \<le> left (?bs ! j)"
      and bs': "bs' = ?bs[j := fst (insert_number_bin (?bs ! j) v)]"
      using first_fit_Some_index by blast
    let ?b = "?bs ! j"
    have bj: "bin_ok cfg ?b" using bins j(1) by simp
    have "length (itens ?b) \<le> length (concat (map itens ?bs))"
      using j(1) by (intro length_itens_le_concat) simp
    then have small: "length (itens ?b) < 65535"
      using total lt nq by linarith
    note ins = bin_ok_insert [OF bj j(2) small]
    have vle: "v \<le> BIN_SIZE cfg"
      using j(2) bin_ok_left_le [OF bj] by simp
    have body: "fill_body cfg v st = (bl\<lparr>itens_list := bs'\<rparr>, 0)"
      using Some by (simp add: st fill_body_first_fit [OF wf])
    have "\<forall>b\<in>set bs'. bin_ok cfg b"
      using bins ins(1) unfolding bs' by (auto dest!: set_update_subset_insert [THEN subsetD])
    moreover have "mset (concat (map itens bs')) = mset (filter (\<lambda>v. v \<le> BIN_SIZE cfg) (vs @ [v]))"
      using mset_concat_update [OF j(1) ins(2)] ms vle by (simp add: bs')
    moreover have "length bs' = length ?bs" by (simp add: bs')
    ultimately show ?thesis
      using wf len j(1) by (auto simp: state_ok_def body)
  next
    case None
    let ?b = "fst (insert_number_bin (create_empty_bin cfg) v)"
    have go: "?bs \<noteq> [] \<or> h = 1" using h ne by auto
    have guard: "\<not> count_list bl > NUMBERS_QUANTITY cfg"
      using wf len lt by (simp add: word_less_nat_alt)
    have cells: "(if count_list bl = 0 then [] else take (unat (count_list bl)) ?bs) = ?bs"
      using wf by auto
    have inc: "unat (count_list bl + 1) = Suc (unat (count_list bl))"
      using wf len lt nq by (intro unat_inc_bounded) linarith
    have body: "fill_body cfg v st = (\<lparr>itens_list = ?bs @ [?b], count_list = count_list bl + 1\<rparr>, 0)"
      using None go guard cells
      by (simp add: st fill_body_first_fit [OF wf] insert_bin_list_def Let_def)
    have "mset (concat (map itens (?bs @ [?b]))) = mset (filter (\<lambda>v. v \<le> BIN_SIZE cfg) (vs @ [v]))"
      using ms by (simp add: bin_ok_new(2))
    then show ?thesis
      using wf len inc bins bin_ok_new(1) [of cfg v]
      by (simp add: state_ok_def body)
  qed
qed

lemma state_ok_init: "state_ok cfg [] (create_empty_bin_list, 1)"
  by (simp add: state_ok_def create_empty_bin_list_def)

lemma fill_state_after_Suc:
  "k < length values \<Longrightarrow>
   fill_state_after cfg values (Suc k) = fill_body cfg (values ! k) (fill_state_after cfg values k)"
  by (simp add: fill_state_after_def take_Suc_conv_app_nth)

lemma state_ok_after:
  "k \<le> unat (NUMBERS_QUANTITY cfg) \<Longrightarrow> k \<le> length values \<Longrightarrow>
   state_ok cfg (take k values) (fill_state_after cfg values k)"
proof (induction k)
  case 0
  then show ?case by (simp add: fill_state_after_def state_ok_init)
next
  case (Suc k)
  then have "state_ok cfg (take k values) (fill_state_after cfg values k)" by simp
  moreover have "length (take k values) < unat (NUMBERS_QUANTITY cfg)"
    using Suc.prems by simp
  ultimately have "state_ok cfg (take k values @ [values ! k])
      (fill_body cfg (values ! k) (fill_state_after cfg values k))"
    by (rule state_ok_step)
  then show ?case
    using Suc.prems by (simp add: fill_state_after_Suc take_Suc_conv_app_nth)
qed

lemma fill_loop_foldl:
  "i \<le> NUMBERS_QUANTITY cfg \<Longrightarrow> unat (NUMBERS_QUANTITY cfg) \<le> length values \<Longrightarrow>
   fill_loop cfg values i st =
     foldl (\<lambda>st num. fill_body cfg num st) st
       (drop (unat i) (take (unat (NUMBERS_QUANTITY cfg)) values))"
proof (induction cfg "values" i st rule: fill_loop.induct)
  case (1 cfg "values" i st)
  show ?case
  proof (cases "i < NUMBERS_QUANTITY cfg")
    case False
    with "1.prems" have "i = NUMBERS_QUANTITY cfg" by simp
    then show ?thesis
      by (subst fill_loop.simps) simp
  next
    case True
    then have inc: "unat (i + 1) = Suc (unat i)" by (rule unat_inc)
    have le: "i + 1 \<le> NUMBERS_QUANTITY cfg" using True by (simp add: inc_le)
    have ilen: "unat i < length (take (unat (NUMBERS_QUANTITY cfg)) values)"
      using True "1.prems"(2) by (simp add: word_less_nat_alt)
    have "drop (unat i) (take (unat (NUMBERS_QUANTITY cfg)) values)
        = values ! unat i # drop (Suc (unat i)) (take (unat (NUMBERS_QUANTITY cfg)) values)"
      using Cons_nth_drop_Suc [OF ilen] ilen by simp
    then show ?thesis
      using True "1.IH" [OF True le "1.prems"(2)]
      by (subst fill_loop.simps) (simp add: inc)
  qed
qed

lemma fill_bins_fill_state_after:
  "unat (NUMBERS_QUANTITY cfg) \<le> length values \<Longrightarrow>
   fill_bins cfg values create_empty_bin_list
     = fill_state_after cfg values (unat (NUMBERS_QUANTITY cfg))"
  by (simp add: fill_bins_def fill_state_after_def fill_loop_foldl)

text \<open>
  The run of \<^verbatim>\<open>fill_bins\<close> on the empty list reaches the state \<^verbatim>\<open>fill_state_after\<close> of
  \<^verbatim>\<open>k\<close> rounds when its counter is \<^verbatim>\<open>k\<close>, and goes on from there.
\<close>

lemma fill_loop_passes_through:
  assumes "unat (NUMBERS_QUANTITY cfg) \<le> length values" "k \<le> unat (NUMBERS_QUANTITY cfg)"
  shows "fill_bins cfg values create_empty_bin_list
       = fill_loop cfg values (of_nat k) (fill_state_after cfg values k)"
proof -
  let ?n = "unat (NUMBERS_QUANTITY cfg)"
  let ?f = "\<lambda>st num. fill_body cfg num st"
  have "?n < 2 ^ LENGTH(16)"
    using unsigned_less [of "NUMBERS_QUANTITY cfg", where 'a = nat] by simp
  then have k16: "k < 2 ^ LENGTH(16)"
    using assms(2) by simp
  have uk: "unat (of_nat k :: ushort) = k"
    using k16 by (simp add: unat_of_nat)
  then have le: "(of_nat k :: ushort) \<le> NUMBERS_QUANTITY cfg"
    using assms(2) by (simp add: word_le_nat_alt)
  have split: "take ?n values = take k values @ drop k (take ?n values)"
    using assms(2) by (metis append_take_drop_id min.absorb1 take_take)
  have "fill_loop cfg values (of_nat k) (fill_state_after cfg values k)
      = foldl ?f (fill_state_after cfg values k) (drop k (take ?n values))"
    using fill_loop_foldl [OF le assms(1)] by (simp add: uk)
  also have "\<dots> = foldl ?f (create_empty_bin_list, 1) (take k values @ drop k (take ?n values))"
    by (simp add: fill_state_after_def)
  also have "\<dots> = foldl ?f (create_empty_bin_list, 1) (take ?n values)"
    using split by simp
  also have "\<dots> = fill_bins cfg values create_empty_bin_list"
    using assms(1) by (simp add: fill_bins_fill_state_after fill_state_after_def)
  finally show ?thesis by simp
qed

text \<open>
  One round of the run: the run reaches index \<^verbatim>\<open>k\<close> with the state of \<^verbatim>\<open>k\<close> rounds,
  \<^verbatim>\<open>fill_loop\<close> applies \<^verbatim>\<open>fill_body\<close> to it with the number at that index, which gives the
  state of \<^verbatim>\<open>k + 1\<close> rounds, and the run goes on from there.
\<close>

lemma fill_bins_round:
  assumes "unat (NUMBERS_QUANTITY cfg) \<le> length values"
    and "k < unat (NUMBERS_QUANTITY cfg)"
  shows "fill_bins cfg values create_empty_bin_list
       = fill_loop cfg values (of_nat k) (fill_state_after cfg values k)"
    and "fill_loop cfg values (of_nat k) (fill_state_after cfg values k)
       = fill_loop cfg values (of_nat k + 1)
           (fill_body cfg (values ! k) (fill_state_after cfg values k))"
    and "fill_body cfg (values ! k) (fill_state_after cfg values k)
       = fill_state_after cfg values (Suc k)"
    and "fill_bins cfg values create_empty_bin_list
       = fill_loop cfg values (of_nat (Suc k)) (fill_state_after cfg values (Suc k))"
proof -
  have kl: "k < length values"
    using assms by simp
  have "unat (NUMBERS_QUANTITY cfg) < 2 ^ LENGTH(16)"
    using unsigned_less [of "NUMBERS_QUANTITY cfg", where 'a = nat] by simp
  then have "k < 2 ^ LENGTH(16)"
    using assms(2) by simp
  then have uk: "unat (of_nat k :: ushort) = k"
    by (simp add: unat_of_nat)
  then have lt: "(of_nat k :: ushort) < NUMBERS_QUANTITY cfg"
    using assms(2) by (simp add: word_less_nat_alt)
  show "fill_bins cfg values create_empty_bin_list
      = fill_loop cfg values (of_nat k) (fill_state_after cfg values k)"
    using assms by (intro fill_loop_passes_through) simp_all
  show "fill_loop cfg values (of_nat k) (fill_state_after cfg values k)
      = fill_loop cfg values (of_nat k + 1)
          (fill_body cfg (values ! k) (fill_state_after cfg values k))"
    using lt by (subst fill_loop.simps) (simp add: uk)
  show "fill_body cfg (values ! k) (fill_state_after cfg values k)
      = fill_state_after cfg values (Suc k)"
    using fill_state_after_Suc [OF kl] by simp
  show "fill_bins cfg values create_empty_bin_list
      = fill_loop cfg values (of_nat (Suc k)) (fill_state_after cfg values (Suc k))"
    using assms by (intro fill_loop_passes_through) simp_all
qed

section \<open>Properties of a single bin\<close>

text \<open>
  Claim C3. For every bin whose array holds exactly \<^verbatim>\<open>count\<close> cells and every number,
  \<^verbatim>\<open>insert_number_bin\<close> returns 0 exactly when the number is at most the free space
  and returns 1 otherwise. When it returns 0 the number is appended at the end of the
  bin's items, the free space decreases by exactly the number (without wrapping) and
  \<^verbatim>\<open>count\<close> is incremented: by one as a number, unless the bin already holds 65535
  items, which no run reaches. When it returns 1 the bin is unchanged.
\<close>

theorem insert_number_bin_spec:
  assumes "length (itens b) = unat (count b)"
  shows "(snd (insert_number_bin b v) = 0 \<longleftrightarrow> v \<le> left b)
       \<and> (snd (insert_number_bin b v) = 1 \<longleftrightarrow> \<not> v \<le> left b)
       \<and> (v \<le> left b \<longrightarrow>
            itens (fst (insert_number_bin b v)) = itens b @ [v]
          \<and> left (fst (insert_number_bin b v)) = left b - v
          \<and> unat (left (fst (insert_number_bin b v))) + unat v = unat (left b)
          \<and> count (fst (insert_number_bin b v)) = count b + 1
          \<and> (unat (count b) < 65535 \<longrightarrow>
               unat (count (fst (insert_number_bin b v))) = Suc (unat (count b))))
       \<and> (\<not> v \<le> left b \<longrightarrow> fst (insert_number_bin b v) = b)"
proof -
  have cells: "(if count b = 0 then [] else take (unat (count b)) (itens b)) = itens b"
    using assms by auto
  have sub: "v \<le> left b \<Longrightarrow> unat (left b - v) + unat v = unat (left b)"
    by (simp add: unat_sub word_le_nat_alt)
  show ?thesis
    using cells sub by (simp add: insert_number_bin_def Let_def unat_inc_bounded)
qed

theorem insert_number_bin_spec_witness:
  "insert_number_bin \<lparr>itens = [6], left = 4, count = 1\<rparr> 4
     = (\<lparr>itens = [6, 4], left = 0, count = 2\<rparr>, 0)
   \<and> insert_number_bin \<lparr>itens = [6], left = 4, count = 1\<rparr> 5
     = (\<lparr>itens = [6], left = 4, count = 1\<rparr>, 1)"
  using insert_number_bin_spec [of "\<lparr>itens = [6], left = 4, count = 1\<rparr>" 4]
    insert_number_bin_spec [of "\<lparr>itens = [6], left = 4, count = 1\<rparr>" 5]
  by (simp add: insert_number_bin_def)

section \<open>Consequences of the invariant\<close>

lemma remaining_not_increased_refl: "remaining_not_increased bs bs"
  by (simp add: remaining_not_increased_def)

lemma take_take_prefix:
  assumes "take (length xs) ys = xs" "take (length ys) zs = ys"
  shows "take (length xs) zs = xs"
proof -
  have "length (take (length xs) ys) = length xs"
    using assms(1) by simp
  then have "length xs \<le> length ys"
    by simp
  then have "take (length xs) zs = take (length xs) (take (length ys) zs)"
    by (simp add: min_def)
  then show ?thesis
    using assms by simp
qed

lemma remaining_not_increased_trans:
  assumes "remaining_not_increased as bs" "remaining_not_increased bs cs"
  shows "remaining_not_increased as cs"
proof -
  have len: "length as \<le> length bs" "length bs \<le> length cs"
    using assms by (simp_all add: remaining_not_increased_def)
  have "left (cs ! n) \<le> left (as ! n)
      \<and> take (length (itens (as ! n))) (itens (cs ! n)) = itens (as ! n)"
    if n: "n < length as" for n
  proof -
    have ab: "left (bs ! n) \<le> left (as ! n)"
      "take (length (itens (as ! n))) (itens (bs ! n)) = itens (as ! n)"
      using assms(1) n by (simp_all add: remaining_not_increased_def)
    have "n < length bs" using n len by simp
    then have bc: "left (cs ! n) \<le> left (bs ! n)"
      "take (length (itens (bs ! n))) (itens (cs ! n)) = itens (bs ! n)"
      using assms(2) by (simp_all add: remaining_not_increased_def)
    from ab(1) bc(1) have "left (cs ! n) \<le> left (as ! n)" by simp
    moreover from ab(2) bc(2)
    have "take (length (itens (as ! n))) (itens (cs ! n)) = itens (as ! n)"
      by (rule take_take_prefix)
    ultimately show ?thesis by simp
  qed
  then show ?thesis
    using len by (simp add: remaining_not_increased_def)
qed

lemma left_insert_number_bin_le: "left (fst (insert_number_bin b v)) \<le> left b"
  by (simp add: insert_number_bin_def Let_def word_sub_le)

lemma itens_insert_number_bin_prefix:
  assumes "length (itens b) = unat (count b)"
  shows "take (length (itens b)) (itens (fst (insert_number_bin b v))) = itens b"
proof -
  have "(if count b = 0 then [] else take (unat (count b)) (itens b)) = itens b"
    using assms by auto
  then show ?thesis
    by (simp add: insert_number_bin_def Let_def)
qed

lemma fill_body_remaining:
  assumes "length (itens_list (fst st)) = unat (count_list (fst st))"
    and "\<forall>b\<in>set (itens_list (fst st)). length (itens b) = unat (count b)"
  shows "remaining_not_increased (itens_list (fst st)) (itens_list (fst (fill_body cfg v st)))"
proof -
  obtain bl h where st: "st = (bl, h)" by (cases st)
  with assms have wf: "length (itens_list bl) = unat (count_list bl)"
    and bins: "\<forall>b\<in>set (itens_list bl). length (itens b) = unat (count b)"
    by simp_all
  have cells: "(if count_list bl = 0 then [] else take (unat (count_list bl)) (itens_list bl))
      = itens_list bl"
    using wf by auto
  show ?thesis
  proof (cases "first_fit v (itens_list bl)")
    case (Some bs')
    then obtain j where j: "j < length (itens_list bl)"
      and bs': "bs' = (itens_list bl)[j := fst (insert_number_bin (itens_list bl ! j) v)]"
      using first_fit_Some_index by blast
    have "length (itens (itens_list bl ! j)) = unat (count (itens_list bl ! j))"
      using bins j by simp
    then have "take (length (itens (itens_list bl ! j)))
        (itens (fst (insert_number_bin (itens_list bl ! j) v))) = itens (itens_list bl ! j)"
      by (rule itens_insert_number_bin_prefix)
    then show ?thesis
      using Some j bs' left_insert_number_bin_le
      by (simp add: st fill_body_first_fit [OF wf] remaining_not_increased_def nth_list_update)
  next
    case None
    then show ?thesis
      using cells
      by (simp add: st fill_body_first_fit [OF wf] insert_bin_list_def Let_def
          remaining_not_increased_def nth_append)
  qed
qed

lemma state_ok_wf:
  "state_ok cfg vs st \<Longrightarrow> length (itens_list (fst st)) = unat (count_list (fst st))"
  by (simp add: state_ok_def)

lemma state_ok_bins_wf:
  "state_ok cfg vs st \<Longrightarrow> \<forall>b\<in>set (itens_list (fst st)). length (itens b) = unat (count b)"
  by (simp add: state_ok_def bin_ok_def)

lemma bins_after_remaining:
  assumes "unat (NUMBERS_QUANTITY cfg) \<le> length values" "i \<le> j" "j \<le> unat (NUMBERS_QUANTITY cfg)"
  shows "remaining_not_increased (bins_after cfg values i) (bins_after cfg values j)"
  using assms(2,3)
proof (induction j)
  case 0
  then show ?case by (simp add: remaining_not_increased_refl)
next
  case (Suc j)
  show ?case
  proof (cases "i = Suc j")
    case True
    then show ?thesis by (simp add: remaining_not_increased_refl)
  next
    case False
    with Suc.prems have ij: "i \<le> j" and j: "j \<le> unat (NUMBERS_QUANTITY cfg)" by simp_all
    have jl: "j < length values" using Suc.prems assms(1) by simp
    have ok: "state_ok cfg (take j values) (fill_state_after cfg values j)"
      using j jl by (intro state_ok_after) simp_all
    have "remaining_not_increased (bins_after cfg values j) (bins_after cfg values (Suc j))"
      unfolding bins_after_def fill_state_after_Suc [OF jl]
      using state_ok_wf [OF ok] state_ok_bins_wf [OF ok] by (rule fill_body_remaining)
    with Suc.IH [OF ij j] show ?thesis
      by (rule remaining_not_increased_trans)
  qed
qed

lemma sum_list_unat_uint:
  "int (sum_list (map unat xs)) = sum_list (map uint (xs :: ushort list))"
  by (induction xs) simp_all

lemma state_after_ok:
  assumes "unat (NUMBERS_QUANTITY cfg) \<le> length values" "k \<le> unat (NUMBERS_QUANTITY cfg)"
  shows "state_ok cfg (take k values) (fill_state_after cfg values k)"
  using assms by (intro state_ok_after) simp_all

lemma fill_state_after_oversized:
  assumes "unat (NUMBERS_QUANTITY cfg) \<le> length values"
    and "k < unat (NUMBERS_QUANTITY cfg)"
    and "BIN_SIZE cfg < values ! k"
  shows "fill_state_after cfg values (Suc k)
       = (\<lparr>itens_list = bins_after cfg values k @ [create_empty_bin cfg],
           count_list = count_list (fst (fill_state_after cfg values k)) + 1\<rparr>, 0)"
proof -
  let ?st = "fill_state_after cfg values k"
  let ?v = "values ! k"
  have kl: "k < length values" using assms(1,2) by simp
  have ok: "state_ok cfg (take k values) ?st"
    using assms(1,2) by (intro state_after_ok) simp_all
  have wf: "length (itens_list (fst ?st)) = unat (count_list (fst ?st))"
    using ok by (rule state_ok_wf)
  have step: "fill_state_after cfg values (Suc k) = fill_body cfg ?v (fst ?st, snd ?st)"
    using fill_state_after_Suc [OF kl] by simp
  have "\<not> ?v \<le> left b" if "b \<in> set (itens_list (fst ?st))" for b
  proof -
    have "left b \<le> BIN_SIZE cfg"
      using ok that by (intro bin_ok_left_le) (simp add: state_ok_def)
    with assms(3) show ?thesis by simp
  qed
  then have ff: "first_fit ?v (itens_list (fst ?st)) = None"
    by (simp add: first_fit_None_iff)
  have go: "itens_list (fst ?st) \<noteq> [] \<or> snd ?st = 1"
    using ok by (auto simp: state_ok_def)
  have guard: "\<not> count_list (fst ?st) > NUMBERS_QUANTITY cfg"
    using ok assms(2) by (simp add: state_ok_def word_less_nat_alt)
  have cells: "(if count_list (fst ?st) = 0 then []
       else take (unat (count_list (fst ?st))) (itens_list (fst ?st))) = itens_list (fst ?st)"
    using wf by auto
  have new: "insert_number_bin (create_empty_bin cfg) ?v = (create_empty_bin cfg, 1)"
    using assms(3) by (simp add: insert_number_bin_def create_empty_bin_def)
  show ?thesis
    unfolding step fill_body_first_fit [OF wf] ff
    using go guard cells by (simp add: insert_bin_list_def Let_def new bins_after_def)
qed

lemma stored_values_after:
  assumes "unat (NUMBERS_QUANTITY cfg) \<le> length values" "k \<le> unat (NUMBERS_QUANTITY cfg)"
  shows "mset (concat (map itens (bins_after cfg values k)))
       = mset (filter (\<lambda>v. v \<le> BIN_SIZE cfg) (take k values))"
  using state_after_ok [OF assms] by (simp add: state_ok_def bins_after_def)

lemma fill_bins_stored_values:
  assumes "unat (NUMBERS_QUANTITY cfg) \<le> length values"
  shows "mset (concat (map itens (itens_list (fst (fill_bins cfg values create_empty_bin_list)))))
       = mset (filter (\<lambda>v. v \<le> BIN_SIZE cfg) (take (unat (NUMBERS_QUANTITY cfg)) values))"
  using stored_values_after [OF assms, of "unat (NUMBERS_QUANTITY cfg)"] assms
  by (simp add: fill_bins_fill_state_after bins_after_def)


section \<open>The packing with and without allocation failures\<close>

lemma insert_number_bin_alloc_ok:
  "\<forall>m. ok m \<Longrightarrow> \<exists>n'. insert_number_bin_alloc b num ok n = Inr (insert_number_bin b num, n')"
  by (simp add: insert_number_bin_alloc_def)

lemma insert_bin_list_alloc_ok:
  "\<forall>m. ok m \<Longrightarrow> \<exists>n'. insert_bin_list_alloc cfg list b ok n = Inr (insert_bin_list cfg list b, n')"
  by (simp add: insert_bin_list_alloc_def)

lemma scan_bins_alloc_ok:
  "\<forall>m. ok m \<Longrightarrow> \<exists>n'. scan_bins_alloc num bins j h ok n = Inr (scan_bins num bins j h, n')"
proof (induction num bins j h ok n rule: scan_bins_alloc.induct)
  case (1 num bins j hasInserted ok n)
  show ?case
  proof (cases "j < count_list bins")
    case False
    then show ?thesis
      by (subst scan_bins_alloc.simps, subst scan_bins.simps) simp
  next
    case True
    obtain n1 where ins: "insert_number_bin_alloc (itens_list bins ! unat j) num ok n
        = Inr (insert_number_bin (itens_list bins ! unat j) num, n1)"
      using insert_number_bin_alloc_ok [OF "1.prems"] by blast
    let ?r = "insert_number_bin (itens_list bins ! unat j) num"
    let ?bins' = "bins\<lparr>itens_list := (itens_list bins)[unat j := fst ?r]\<rparr>"
    show ?thesis
    proof (cases "snd ?r = 0")
      case z: True
      then show ?thesis
        using True ins
        by (subst scan_bins_alloc.simps, subst scan_bins.simps) (simp add: Let_def)
    next
      case nz: False
      obtain n2 where "scan_bins_alloc num ?bins' (j + 1) (snd ?r) ok n1
          = Inr (scan_bins num ?bins' (j + 1) (snd ?r), n2)"
        using "1.IH" [OF True ins refl refl nz "1.prems"] by blast
      then show ?thesis
        using True ins nz
        by (subst scan_bins_alloc.simps, subst scan_bins.simps) (simp add: Let_def)
    qed
  qed
qed

lemma fill_body_alloc_ok:
  assumes "\<forall>m. ok m"
  shows "\<exists>n'. fill_body_alloc cfg num st ok n = Inr (fill_body cfg num st, n')"
proof -
  obtain n1 where s: "scan_bins_alloc num (fst st) 0 (snd st) ok n
      = Inr (scan_bins num (fst st) 0 (snd st), n1)"
    using scan_bins_alloc_ok [OF assms] by blast
  obtain n3 where i: "insert_number_bin_alloc (create_empty_bin cfg) num ok (Suc n1)
      = Inr (insert_number_bin (create_empty_bin cfg) num, n3)"
    using insert_number_bin_alloc_ok [OF assms] by blast
  obtain n4 where l: "insert_bin_list_alloc cfg (fst (scan_bins num (fst st) 0 (snd st)))
        (fst (insert_number_bin (create_empty_bin cfg) num)) ok n3
      = Inr (insert_bin_list cfg (fst (scan_bins num (fst st) 0 (snd st)))
          (fst (insert_number_bin (create_empty_bin cfg) num)), n4)"
    using insert_bin_list_alloc_ok [OF assms] by blast
  show ?thesis
    using assms s i l
    by (simp add: fill_body_alloc_def fill_body_def create_empty_bin_alloc_def Let_def)
qed

lemma fill_loop_alloc_ok:
  "\<forall>m. ok m \<Longrightarrow> \<exists>n'. fill_loop_alloc cfg values i st ok n = Inr (fill_loop cfg values i st, n')"
proof (induction cfg "values" i st ok n rule: fill_loop_alloc.induct)
  case (1 cfg "values" i st ok n)
  show ?case
  proof (cases "i < NUMBERS_QUANTITY cfg")
    case False
    then show ?thesis
      by (subst fill_loop_alloc.simps, subst fill_loop.simps) simp
  next
    case True
    obtain n1 where b: "fill_body_alloc cfg (values ! unat i) st ok n
        = Inr (fill_body cfg (values ! unat i) st, n1)"
      using fill_body_alloc_ok [OF "1.prems"] by blast
    obtain n2 where "fill_loop_alloc cfg values (i + 1) (fill_body cfg (values ! unat i) st) ok n1
        = Inr (fill_loop cfg values (i + 1) (fill_body cfg (values ! unat i) st), n2)"
      using "1.IH" [OF True b refl "1.prems"] by blast
    then show ?thesis
      using True b
      by (subst fill_loop_alloc.simps, subst fill_loop.simps) simp
  qed
qed

lemma fill_bins_alloc_ok:
  "\<forall>m. ok m \<Longrightarrow> \<exists>n'. fill_bins_alloc cfg values bins ok n = Inr (fill_bins cfg values bins, n')"
  by (simp add: fill_bins_alloc_def fill_bins_def fill_loop_alloc_ok)

section \<open>Cells and integers\<close>

lemma unat_ucast_pair:
  "unat (ucast lo + 65536 * ucast hi :: c_int) = unat lo + 65536 * unat hi"
  for lo hi :: ushort
proof -
  have "unat lo < 65536" "unat hi < 65536"
    using unsigned_less [of lo, where 'a = nat] unsigned_less [of hi, where 'a = nat] by simp_all
  then have b: "unat lo + 65536 * unat hi < 2 ^ LENGTH(32)" by simp
  have "word_of_nat (unat lo + 65536 * unat hi) = (ucast lo + 65536 * ucast hi :: c_int)"
    by simp
  then show ?thesis
    using b by (rule of_nat_inverse)
qed

lemma low_cell_of_pair: "ucast (ucast lo + 65536 * ucast hi :: c_int) = lo"
  for lo hi :: ushort
proof -
  have "(ucast (ucast lo + 65536 * ucast hi :: c_int) :: ushort)
      = of_nat (unat (ucast lo + 65536 * ucast hi :: c_int))"
    by simp
  also have "\<dots> = of_nat (unat lo) + of_nat 65536 * of_nat (unat hi)"
    by (simp only: unat_ucast_pair of_nat_add of_nat_mult)
  also have "of_nat 65536 = (0 :: ushort)" by simp
  finally show ?thesis by simp
qed

lemma high_cell_of_pair: "ucast ((ucast lo + 65536 * ucast hi :: c_int) div 65536) = hi"
  for lo hi :: ushort
proof -
  have "unat lo < 65536"
    using unsigned_less [of lo, where 'a = nat] by simp
  then have "unat ((ucast lo + 65536 * ucast hi :: c_int) div 65536) = unat hi"
    by (simp add: unat_div unat_ucast_pair)
  then show ?thesis
    by (metis of_nat_unat ucast_id)
qed

lemma cells_of_int_of_cells:
  "cells_of_ints e [int_of_cells e c0 c1] = [c0, c1]"
  by (simp add: int_of_cells_def low_cell_of_pair high_cell_of_pair)

lemma qsort_two:
  "qsort cmp [a, b] = [a, b] \<or> qsort cmp [a, b] = [b, a]"
  by (simp add: qsort_def)

lemma cells_of_ints_two:
  "cells_of_ints e [v, w] = cells_of_ints e [v] @ cells_of_ints e [w]"
  by simp

lemma sort_numbers_array_two_cells:
  "take 2 (sort_numbers_array e \<lparr>NUMBERS_QUANTITY = 2, BIN_SIZE = s\<rparr> [a, b, g0, g1]) = [a, b]
   \<or> take 2 (sort_numbers_array e \<lparr>NUMBERS_QUANTITY = 2, BIN_SIZE = s\<rparr> [a, b, g0, g1]) = [g0, g1]"
proof -
  have "sort_numbers_array e \<lparr>NUMBERS_QUANTITY = 2, BIN_SIZE = s\<rparr> [a, b, g0, g1]
      = cells_of_ints e (qsort comparison_numbers [int_of_cells e a b, int_of_cells e g0 g1])"
    by (simp add: sort_numbers_array_def)
  then show ?thesis
    using qsort_two [of comparison_numbers "int_of_cells e a b" "int_of_cells e g0 g1"]
    by (auto simp only: cells_of_ints_two cells_of_int_of_cells append_Cons append_Nil
        take_Suc_Cons take_0 numeral_2_eq_2)
qed

section \<open>The argument check of main\<close>

lemma main_usage: "argc < 5 \<Longrightarrow> main argc argv env = Some (Exit 1, [Usage])"
  by (simp add: main_def)

lemma fill_bins_no_numbers:
  "NUMBERS_QUANTITY cfg = 0 \<Longrightarrow> fill_bins cfg values bins = (bins, 1)"
  by (simp add: fill_bins_def fill_loop.simps)

section \<open>Properties of a run of fill_bins\<close>

text \<open>
  Claim C1. For every array of numbers, sorted or not, every bin of every state of
  \<^verbatim>\<open>fill_bins\<close> (started on the empty list), the final one included, has as many
  cells as its \<^verbatim>\<open>count\<close> says, its free space is the bin size minus the sum of its
  items (in the integers, so nothing wraps), its free space is not negative and the sum
  of its items is at most the bin size. Between an earlier and a later state every bin
  stays at its index, keeps its items (new ones come after them) and gains no free
  space.
\<close>

theorem fill_bins_capacity_invariant:
  assumes "unat (NUMBERS_QUANTITY cfg) \<le> length values"
  shows "fill_bins cfg values create_empty_bin_list
           = fill_state_after cfg values (unat (NUMBERS_QUANTITY cfg))
       \<and> (\<forall>k\<le>unat (NUMBERS_QUANTITY cfg). \<forall>b\<in>set (bins_after cfg values k).
             length (itens b) = unat (count b)
           \<and> uint (left b) = uint (BIN_SIZE cfg) - sum_list (map uint (itens b))
           \<and> 0 \<le> uint (left b)
           \<and> sum_list (map uint (itens b)) \<le> uint (BIN_SIZE cfg))
       \<and> (\<forall>i j. i \<le> j \<and> j \<le> unat (NUMBERS_QUANTITY cfg) \<longrightarrow>
             remaining_not_increased (bins_after cfg values i) (bins_after cfg values j))"
proof (intro conjI allI impI ballI)
  show "fill_bins cfg values create_empty_bin_list
      = fill_state_after cfg values (unat (NUMBERS_QUANTITY cfg))"
    using assms by (rule fill_bins_fill_state_after)
next
  fix i j
  assume "i \<le> j \<and> j \<le> unat (NUMBERS_QUANTITY cfg)"
  then show "remaining_not_increased (bins_after cfg values i) (bins_after cfg values j)"
    using assms bins_after_remaining by blast
next
  fix k b
  assume k: "k \<le> unat (NUMBERS_QUANTITY cfg)" and b: "b \<in> set (bins_after cfg values k)"
  have "state_ok cfg (take k values) (fill_state_after cfg values k)"
    using k assms by (intro state_ok_after) simp_all
  with b have ok: "bin_ok cfg b"
    by (simp add: state_ok_def bins_after_def)
  then show "length (itens b) = unat (count b)"
    by (simp add: bin_ok_def)
  have "int (unat (left b)) + int (sum_list (map unat (itens b))) = int (unat (BIN_SIZE cfg))"
    using ok unfolding bin_ok_def by (metis of_nat_add)
  moreover have "int (sum_list (map unat (itens b))) = sum_list (map uint (itens b))"
    by (rule sum_list_unat_uint)
  ultimately have eq: "uint (left b) + sum_list (map uint (itens b)) = uint (BIN_SIZE cfg)"
    by simp
  then show "uint (left b) = uint (BIN_SIZE cfg) - sum_list (map uint (itens b))"
    by simp
  show "0 \<le> uint (left b)" by simp
  from eq show "sum_list (map uint (itens b)) \<le> uint (BIN_SIZE cfg)"
    using uint_ge_0 [of "left b"] by linarith
qed

theorem fill_bins_capacity_invariant_witness:
  "unat (NUMBERS_QUANTITY \<lparr>NUMBERS_QUANTITY = 4, BIN_SIZE = 10\<rparr>) \<le> length [6, 5, 4, 3 :: ushort]
   \<and> fill_bins \<lparr>NUMBERS_QUANTITY = 4, BIN_SIZE = 10\<rparr> [6, 5, 4, 3] create_empty_bin_list
       = (\<lparr>itens_list = [\<lparr>itens = [6, 4], left = 0, count = 2\<rparr>,
                          \<lparr>itens = [5, 3], left = 2, count = 2\<rparr>], count_list = 2\<rparr>, 0)
   \<and> left (bins_after \<lparr>NUMBERS_QUANTITY = 4, BIN_SIZE = 10\<rparr> [6, 5, 4, 3] 4 ! 0)
       \<le> left (bins_after \<lparr>NUMBERS_QUANTITY = 4, BIN_SIZE = 10\<rparr> [6, 5, 4, 3] 2 ! 0)
   \<and> uint (left (bins_after \<lparr>NUMBERS_QUANTITY = 4, BIN_SIZE = 10\<rparr> [6, 5, 4, 3] 4 ! 1))
       = uint (BIN_SIZE \<lparr>NUMBERS_QUANTITY = 4, BIN_SIZE = 10\<rparr>)
         - sum_list (map uint (itens (bins_after \<lparr>NUMBERS_QUANTITY = 4, BIN_SIZE = 10\<rparr>
             [6, 5, 4, 3] 4 ! 1)))"
proof -
  let ?c = "\<lparr>NUMBERS_QUANTITY = 4, BIN_SIZE = 10\<rparr>"
  let ?vs = "[6, 5, 4, 3 :: ushort]"
  have h: "unat (NUMBERS_QUANTITY ?c) \<le> length ?vs"
    by simp
  note T = fill_bins_capacity_invariant [OF h]
  have b2: "bins_after ?c ?vs 2
      = [\<lparr>itens = [6], left = 4, count = 1\<rparr>, \<lparr>itens = [5], left = 5, count = 1\<rparr>]"
    by (simp add: eval_simps)
  have b4: "bins_after ?c ?vs 4
      = [\<lparr>itens = [6, 4], left = 0, count = 2\<rparr>, \<lparr>itens = [5, 3], left = 2, count = 2\<rparr>]"
    by (simp add: eval_simps)
  have "remaining_not_increased (bins_after ?c ?vs 2) (bins_after ?c ?vs 4)"
    using T by simp
  then have "\<forall>n<length (bins_after ?c ?vs 2).
      left (bins_after ?c ?vs 4 ! n) \<le> left (bins_after ?c ?vs 2 ! n)"
    unfolding remaining_not_increased_def by blast
  moreover have "0 < length (bins_after ?c ?vs 2)"
    by (simp add: b2)
  ultimately have mono: "left (bins_after ?c ?vs 4 ! 0) \<le> left (bins_after ?c ?vs 2 ! 0)"
    by blast
  have k4: "4 \<le> unat (NUMBERS_QUANTITY ?c)"
    by simp
  have mem: "bins_after ?c ?vs 4 ! 1 \<in> set (bins_after ?c ?vs 4)"
    by (simp add: b4)
  have inv: "uint (left (bins_after ?c ?vs 4 ! 1))
      = uint (BIN_SIZE ?c) - sum_list (map uint (itens (bins_after ?c ?vs 4 ! 1)))"
    using T [THEN conjunct2, THEN conjunct1, rule_format, OF k4 mem] by blast
  have run: "fill_bins ?c ?vs create_empty_bin_list
       = (\<lparr>itens_list = [\<lparr>itens = [6, 4], left = 0, count = 2\<rparr>,
                          \<lparr>itens = [5, 3], left = 2, count = 2\<rparr>], count_list = 2\<rparr>, 0)"
    using T by (simp add: eval_simps)
  show ?thesis
    using h mono inv run by blast
qed

text \<open>
  Claim C2. In a run of \<^verbatim>\<open>fill_bins\<close>, when the list is not empty the next number goes
  to the first bin, in the order of creation, whose free space is at least the number:
  the list changes at that index only, where the number is appended to the bin's items.
  In particular, when two bins both have room, the later one is unchanged. When no bin
  has room, the list grows at its end by one bin, a new bin of size \<^verbatim>\<open>BIN_SIZE\<close> after
  the attempt to insert the number in it. The lists before and after are those of the
  code: the run of \<^verbatim>\<open>fill_bins\<close> reaches the number with the first list, and
  \<^verbatim>\<open>fill_loop\<close> goes on with the list that \<^verbatim>\<open>fill_body\<close> makes of it.
\<close>

theorem fill_bins_first_fit:
  assumes "unat (NUMBERS_QUANTITY cfg) \<le> length values"
    and "k < unat (NUMBERS_QUANTITY cfg)"
    and "bins_after cfg values k \<noteq> []"
  shows "(\<forall>j<length (bins_after cfg values k).
            values ! k \<le> left (bins_after cfg values k ! j)
          \<and> (\<forall>i<j. \<not> values ! k \<le> left (bins_after cfg values k ! i))
          \<longrightarrow> bins_after cfg values (Suc k)
                = (bins_after cfg values k)
                    [j := fst (insert_number_bin (bins_after cfg values k ! j) (values ! k))]
            \<and> itens (bins_after cfg values (Suc k) ! j)
                = itens (bins_after cfg values k ! j) @ [values ! k])
       \<and> (\<forall>j0 j1. j0 < j1 \<and> j1 < length (bins_after cfg values k)
            \<and> values ! k \<le> left (bins_after cfg values k ! j0)
            \<and> values ! k \<le> left (bins_after cfg values k ! j1)
          \<longrightarrow> bins_after cfg values (Suc k) ! j1 = bins_after cfg values k ! j1)
       \<and> ((\<forall>j<length (bins_after cfg values k).
              \<not> values ! k \<le> left (bins_after cfg values k ! j))
          \<longrightarrow> bins_after cfg values (Suc k)
                = bins_after cfg values k
                    @ [fst (insert_number_bin (create_empty_bin cfg) (values ! k))]
            \<and> left (create_empty_bin cfg) = BIN_SIZE cfg
            \<and> itens (create_empty_bin cfg) = [])
       \<and> fill_bins cfg values create_empty_bin_list
           = fill_loop cfg values (of_nat k) (fill_state_after cfg values k)
       \<and> fill_loop cfg values (of_nat k) (fill_state_after cfg values k)
           = fill_loop cfg values (of_nat k + 1)
               (fill_body cfg (values ! k) (fill_state_after cfg values k))
       \<and> bins_after cfg values (Suc k)
           = itens_list (fst (fill_body cfg (values ! k) (fill_state_after cfg values k)))"
proof -
  let ?st = "fill_state_after cfg values k"
  let ?bs = "bins_after cfg values k"
  let ?v = "values ! k"
  have kl: "k < length values" using assms(1,2) by simp
  have ok: "state_ok cfg (take k values) ?st"
    using assms(1,2) by (intro state_after_ok) simp_all
  have wf: "length (itens_list (fst ?st)) = unat (count_list (fst ?st))"
    using ok by (rule state_ok_wf)
  have step: "fill_state_after cfg values (Suc k) = fill_body cfg ?v (fst ?st, snd ?st)"
    using fill_state_after_Suc [OF kl] by simp
  note body = fill_body_first_fit [OF wf, of cfg ?v "snd ?st"]
  have A: "bins_after cfg values (Suc k) = ?bs[j := fst (insert_number_bin (?bs ! j) ?v)]
      \<and> itens (bins_after cfg values (Suc k) ! j) = itens (?bs ! j) @ [?v]"
    if j: "j < length ?bs" "?v \<le> left (?bs ! j)" "\<forall>i<j. \<not> ?v \<le> left (?bs ! i)" for j
  proof -
    have ff: "first_fit ?v (itens_list (fst ?st))
        = Some (?bs[j := fst (insert_number_bin (?bs ! j) ?v)])"
      using first_fit_at [OF j] by (simp add: bins_after_def)
    have eq: "bins_after cfg values (Suc k) = ?bs[j := fst (insert_number_bin (?bs ! j) ?v)]"
      unfolding bins_after_def step body ff by (simp add: bins_after_def)
    have bj: "bin_ok cfg (?bs ! j)"
      using ok j(1) by (simp add: state_ok_def bins_after_def)
    have cells: "(if count (?bs ! j) = 0 then [] else take (unat (count (?bs ! j))) (itens (?bs ! j)))
        = itens (?bs ! j)"
      using bj by (auto simp: bin_ok_def)
    have "itens (fst (insert_number_bin (?bs ! j) ?v)) = itens (?bs ! j) @ [?v]"
      using j(2) cells by (simp add: insert_number_bin_def Let_def)
    with eq j(1) show ?thesis by simp
  qed
  have B: "bins_after cfg values (Suc k) ! j1 = ?bs ! j1"
    if j: "j0 < j1" "j1 < length ?bs" "?v \<le> left (?bs ! j0)" "?v \<le> left (?bs ! j1)" for j0 j1
  proof -
    have "first_fit ?v ?bs \<noteq> None"
      using j by (auto simp: first_fit_None_iff)
    then obtain bs' where "first_fit ?v ?bs = Some bs'" by blast
    then obtain m where m: "m < length ?bs" "?v \<le> left (?bs ! m)"
      "\<forall>i<m. \<not> ?v \<le> left (?bs ! i)"
      using first_fit_Some_index by blast
    then have "\<not> j0 < m" using j(3) by blast
    then have "m \<noteq> j1" using j(1) by simp
    with A [OF m] show ?thesis by simp
  qed
  have C: "bins_after cfg values (Suc k)
        = ?bs @ [fst (insert_number_bin (create_empty_bin cfg) ?v)]"
    if none: "\<forall>j<length ?bs. \<not> ?v \<le> left (?bs ! j)"
  proof -
    have ff: "first_fit ?v (itens_list (fst ?st)) = None"
      using none by (auto simp: first_fit_None_iff bins_after_def in_set_conv_nth)
    have guard: "\<not> count_list (fst ?st) > NUMBERS_QUANTITY cfg"
      using ok assms(2) by (simp add: state_ok_def word_less_nat_alt)
    have cells: "(if count_list (fst ?st) = 0 then []
         else take (unat (count_list (fst ?st))) (itens_list (fst ?st))) = itens_list (fst ?st)"
      using wf by auto
    show ?thesis
      unfolding bins_after_def step body ff
      using assms(3) guard cells by (simp add: bins_after_def insert_bin_list_def Let_def)
  qed
  have D: "left (create_empty_bin cfg) = BIN_SIZE cfg \<and> itens (create_empty_bin cfg) = []"
    by (simp add: create_empty_bin_def)
  show ?thesis
  proof (intro conjI allI impI)
    fix j
    assume "values ! k \<le> left (?bs ! j) \<and> (\<forall>i<j. \<not> values ! k \<le> left (?bs ! i))"
      and "j < length ?bs"
    then show "bins_after cfg values (Suc k) = ?bs[j := fst (insert_number_bin (?bs ! j) ?v)]"
      and "itens (bins_after cfg values (Suc k) ! j) = itens (?bs ! j) @ [?v]"
      using A [of j] by blast+
  next
    fix j0 j1
    assume "j0 < j1 \<and> j1 < length ?bs \<and> ?v \<le> left (?bs ! j0) \<and> ?v \<le> left (?bs ! j1)"
    then show "bins_after cfg values (Suc k) ! j1 = ?bs ! j1"
      using B [of j0 j1] by blast
  next
    assume "\<forall>j<length ?bs. \<not> ?v \<le> left (?bs ! j)"
    then show "bins_after cfg values (Suc k)
        = ?bs @ [fst (insert_number_bin (create_empty_bin cfg) ?v)]"
      by (rule C)
  next
    show "left (create_empty_bin cfg) = BIN_SIZE cfg" using D by simp
    show "itens (create_empty_bin cfg) = []" using D by simp
  next
    show "fill_bins cfg values create_empty_bin_list
        = fill_loop cfg values (of_nat k) ?st"
      using assms(1,2) by (rule fill_bins_round(1))
    show "fill_loop cfg values (of_nat k) ?st
        = fill_loop cfg values (of_nat k + 1) (fill_body cfg ?v ?st)"
      using assms(1,2) by (rule fill_bins_round(2))
    show "bins_after cfg values (Suc k) = itens_list (fst (fill_body cfg ?v ?st))"
      using fill_bins_round(3) [OF assms(1,2)] by (simp add: bins_after_def)
  qed
qed

theorem fill_bins_first_fit_witness:
  "bins_after \<lparr>NUMBERS_QUANTITY = 4, BIN_SIZE = 10\<rparr> [6, 5, 2, 7] 2
     = [\<lparr>itens = [6], left = 4, count = 1\<rparr>, \<lparr>itens = [5], left = 5, count = 1\<rparr>]
   \<and> bins_after \<lparr>NUMBERS_QUANTITY = 4, BIN_SIZE = 10\<rparr> [6, 5, 2, 7] (Suc 2)
     = [\<lparr>itens = [6, 2], left = 2, count = 2\<rparr>, \<lparr>itens = [5], left = 5, count = 1\<rparr>]
   \<and> bins_after \<lparr>NUMBERS_QUANTITY = 4, BIN_SIZE = 10\<rparr> [6, 5, 2, 7] (Suc 3)
     = [\<lparr>itens = [6, 2], left = 2, count = 2\<rparr>, \<lparr>itens = [5], left = 5, count = 1\<rparr>,
        \<lparr>itens = [7], left = 3, count = 1\<rparr>]"
proof -
  let ?c = "\<lparr>NUMBERS_QUANTITY = 4, BIN_SIZE = 10\<rparr>"
  let ?vs = "[6, 5, 2, 7 :: ushort]"
  have h: "unat (NUMBERS_QUANTITY ?c) \<le> length ?vs" by simp
  have k2: "2 < unat (NUMBERS_QUANTITY ?c)" and k3: "3 < unat (NUMBERS_QUANTITY ?c)"
    by simp_all
  have b2: "bins_after ?c ?vs 2
      = [\<lparr>itens = [6], left = 4, count = 1\<rparr>, \<lparr>itens = [5], left = 5, count = 1\<rparr>]"
    by (simp add: eval_simps)
  have b3: "bins_after ?c ?vs 3
      = [\<lparr>itens = [6, 2], left = 2, count = 2\<rparr>, \<lparr>itens = [5], left = 5, count = 1\<rparr>]"
    by (simp add: eval_simps)
  have ne2: "bins_after ?c ?vs 2 \<noteq> []" and ne3: "bins_after ?c ?vs 3 \<noteq> []"
    by (simp_all add: b2 b3)
  have "bins_after ?c ?vs (Suc 2)
      = (bins_after ?c ?vs 2)[0 := fst (insert_number_bin (bins_after ?c ?vs 2 ! 0) (?vs ! 2))]"
    using fill_bins_first_fit [OF h k2 ne2, THEN conjunct1, rule_format, of 0]
    by (simp add: b2)
  then have s2: "bins_after ?c ?vs (Suc 2)
      = [\<lparr>itens = [6, 2], left = 2, count = 2\<rparr>, \<lparr>itens = [5], left = 5, count = 1\<rparr>]"
    by (simp add: b2 insert_number_bin_def)
  have none: "\<forall>j<length (bins_after ?c ?vs 3). \<not> ?vs ! 3 \<le> left (bins_after ?c ?vs 3 ! j)"
    by (simp add: b3 less_Suc_eq_0_disj)
  have "bins_after ?c ?vs (Suc 3)
      = bins_after ?c ?vs 3 @ [fst (insert_number_bin (create_empty_bin ?c) (?vs ! 3))]"
    using fill_bins_first_fit [OF h k3 ne3, THEN conjunct2, THEN conjunct2, THEN conjunct1,
        THEN mp, OF none]
    by blast
  then have s3: "bins_after ?c ?vs (Suc 3)
      = [\<lparr>itens = [6, 2], left = 2, count = 2\<rparr>, \<lparr>itens = [5], left = 5, count = 1\<rparr>,
         \<lparr>itens = [7], left = 3, count = 1\<rparr>]"
    by (simp add: b3 insert_number_bin_def create_empty_bin_def)
  show ?thesis
    using b2 s2 s3 by blast
qed

text \<open>
  Claim C6. In a run of \<^verbatim>\<open>fill_bins\<close> started on the empty list, after \<^verbatim>\<open>k\<close> rounds of
  the outer loop the list has at most \<^verbatim>\<open>k\<close> bins, hence never more than
  \<^verbatim>\<open>NUMBERS_QUANTITY\<close>, the number of values being packed; its \<^verbatim>\<open>count\<close> field is the
  length of its array; and the final list has at most \<^verbatim>\<open>NUMBERS_QUANTITY\<close> bins.
\<close>

theorem fill_bins_bin_count_bound:
  assumes "unat (NUMBERS_QUANTITY cfg) \<le> length values" "k \<le> unat (NUMBERS_QUANTITY cfg)"
  shows "length (bins_after cfg values k) = unat (count_list (fst (fill_state_after cfg values k)))
       \<and> length (bins_after cfg values k) \<le> k
       \<and> unat (count_list (fst (fill_state_after cfg values k))) \<le> unat (NUMBERS_QUANTITY cfg)
       \<and> unat (count_list (fst (fill_bins cfg values create_empty_bin_list)))
            \<le> unat (NUMBERS_QUANTITY cfg)"
proof -
  have ok: "state_ok cfg (take k values) (fill_state_after cfg values k)"
    using assms by (rule state_after_ok)
  have okn: "state_ok cfg (take (unat (NUMBERS_QUANTITY cfg)) values)
      (fill_state_after cfg values (unat (NUMBERS_QUANTITY cfg)))"
    using assms(1) by (intro state_after_ok) simp_all
  have "length (bins_after cfg values k) = unat (count_list (fst (fill_state_after cfg values k)))"
    using ok by (simp add: state_ok_def bins_after_def)
  moreover have "length (bins_after cfg values k) \<le> k"
    using ok assms by (simp add: state_ok_def bins_after_def)
  moreover have "unat (count_list (fst (fill_bins cfg values create_empty_bin_list)))
      \<le> unat (NUMBERS_QUANTITY cfg)"
    using okn assms(1) by (simp add: state_ok_def fill_bins_fill_state_after)
  ultimately show ?thesis using assms(2) by simp
qed

theorem fill_bins_bin_count_bound_witness:
  "length (bins_after \<lparr>NUMBERS_QUANTITY = 3, BIN_SIZE = 5\<rparr> [5, 5, 5] 2) \<le> 2
   \<and> unat (count_list (fst (fill_bins \<lparr>NUMBERS_QUANTITY = 3, BIN_SIZE = 5\<rparr> [5, 5, 5]
         create_empty_bin_list))) \<le> 3"
proof -
  let ?c = "\<lparr>NUMBERS_QUANTITY = 3, BIN_SIZE = 5\<rparr>"
  have h: "unat (NUMBERS_QUANTITY ?c) \<le> length [5, 5, 5 :: ushort]"
    and k: "2 \<le> unat (NUMBERS_QUANTITY ?c)"
    by simp_all
  note T = fill_bins_bin_count_bound [OF h k]
  have "length (bins_after ?c [5, 5, 5] 2) \<le> 2"
    using T by blast
  moreover have "unat (count_list (fst (fill_bins ?c [5, 5, 5] create_empty_bin_list)))
      \<le> unat (NUMBERS_QUANTITY ?c)"
    using T by blast
  ultimately show ?thesis by simp
qed



text \<open>
  Claim C5, as amended. In a run of \<^verbatim>\<open>fill_bins\<close>, a number greater than \<^verbatim>\<open>BIN_SIZE\<close>
  is not admitted by the new bin created for it: \<^verbatim>\<open>insert_number_bin\<close> returns 1 on that
  bin, and the last bin of the list after the round is that bin, with no item and with
  free space \<^verbatim>\<open>BIN_SIZE\<close>, which is not negative. Nothing is reported: the flag is 0
  after the round.
\<close>

theorem oversized_value_fresh_bin:
  assumes "unat (NUMBERS_QUANTITY cfg) \<le> length values"
    and "k < unat (NUMBERS_QUANTITY cfg)"
    and "BIN_SIZE cfg < values ! k"
  shows "snd (insert_number_bin (create_empty_bin cfg) (values ! k)) = 1
       \<and> last (bins_after cfg values (Suc k)) = create_empty_bin cfg
       \<and> left (last (bins_after cfg values (Suc k))) = BIN_SIZE cfg
       \<and> 0 \<le> uint (left (last (bins_after cfg values (Suc k))))
       \<and> itens (last (bins_after cfg values (Suc k))) = []
       \<and> snd (fill_state_after cfg values (Suc k)) = 0"
proof -
  have "bins_after cfg values (Suc k) = bins_after cfg values k @ [create_empty_bin cfg]"
    and "snd (fill_state_after cfg values (Suc k)) = 0"
    using fill_state_after_oversized [OF assms] by (simp_all add: bins_after_def)
  moreover have "snd (insert_number_bin (create_empty_bin cfg) (values ! k)) = 1"
    using assms(3) by (simp add: insert_number_bin_def create_empty_bin_def)
  ultimately show ?thesis
    by (simp add: create_empty_bin_def)
qed

theorem oversized_value_fresh_bin_witness:
  "last (bins_after \<lparr>NUMBERS_QUANTITY = 3, BIN_SIZE = 20\<rparr> [7, 30, 2] (Suc 1))
     = \<lparr>itens = [], left = 20, count = 0\<rparr>
   \<and> snd (fill_state_after \<lparr>NUMBERS_QUANTITY = 3, BIN_SIZE = 20\<rparr> [7, 30, 2] (Suc 1)) = 0"
proof -
  let ?c = "\<lparr>NUMBERS_QUANTITY = 3, BIN_SIZE = 20\<rparr>"
  have h: "unat (NUMBERS_QUANTITY ?c) \<le> length [7, 30, 2 :: ushort]"
    and k: "1 < unat (NUMBERS_QUANTITY ?c)"
    and v: "BIN_SIZE ?c < [7, 30, 2] ! 1"
    by simp_all
  note T = oversized_value_fresh_bin [OF h k v]
  have "last (bins_after ?c [7, 30, 2] (Suc 1)) = create_empty_bin ?c"
    using T by blast
  moreover have "snd (fill_state_after ?c [7, 30, 2] (Suc 1)) = 0"
    using T by blast
  ultimately show ?thesis by (simp add: create_empty_bin_def)
qed

text \<open>
  The claim C5 as the specification states it fails: packing 11 into bins of size 10
  leaves one bin that does not hold 11 and whose free space is 10.
\<close>

theorem oversized_value_counterexample:
  "fill_bins \<lparr>NUMBERS_QUANTITY = 1, BIN_SIZE = 10\<rparr> [11] create_empty_bin_list
     = (\<lparr>itens_list = [\<lparr>itens = [], left = 10, count = 0\<rparr>], count_list = 1\<rparr>, 0)"
  by (simp add: eval_simps)

text \<open>
  Claim C4 fails on the code: the numbers 12, 4 and 3 packed into bins of size 10 leave
  one bin holding 4 and 3; 12 is in no bin, and the whole run reports that single bin.
  (In general the bins hold the numbers that are at most \<^verbatim>\<open>BIN_SIZE\<close> and no other, by
  \<^verbatim>\<open>fill_bins_stored_values\<close>.)
\<close>

theorem fill_bins_loses_oversized_value:
  "fill_bins \<lparr>NUMBERS_QUANTITY = 3, BIN_SIZE = 10\<rparr> [12, 4, 3] create_empty_bin_list
     = (\<lparr>itens_list = [\<lparr>itens = [4, 3], left = 3, count = 2\<rparr>], count_list = 1\<rparr>, 0)
   \<and> mset (concat (map itens (itens_list (fst
         (fill_bins \<lparr>NUMBERS_QUANTITY = 3, BIN_SIZE = 10\<rparr> [12, 4, 3] create_empty_bin_list)))))
     \<noteq> mset [12, 4, 3]
   \<and> main 8 [p, 3, 10, 1, 20, 12, 4, 3]
       \<lparr>values_allocated = True, garbage = (\<lambda>_. 0), random_numbers = r,
        allocated = (\<lambda>_. True), unset_pointer_freeable = f, big_endian = e\<rparr>
     = Some (Exit 0,
         [Numbers \<lparr>numbers = [12, 4, 3], total_field = 3, average_field = 6\<rparr>,
          Bins [\<lparr>index_field = 0, left_field = 3, count_field = 2, itens_field = [4, 3]\<rparr>]])"
proof -
  have run: "fill_bins \<lparr>NUMBERS_QUANTITY = 3, BIN_SIZE = 10\<rparr> [12, 4, 3] create_empty_bin_list
     = (\<lparr>itens_list = [\<lparr>itens = [4, 3], left = 3, count = 2\<rparr>], count_list = 1\<rparr>, 0)"
    by (simp add: eval_simps)
  have "size (mset [4, 3 :: ushort]) \<noteq> size (mset [12, 4, 3 :: ushort])"
    by simp
  then have differ: "mset [4, 3 :: ushort] \<noteq> mset [12, 4, 3]"
    by metis
  have whole: "main 8 [p, 3, 10, 1, 20, 12, 4, 3]
       \<lparr>values_allocated = True, garbage = (\<lambda>_. 0), random_numbers = r,
        allocated = (\<lambda>_. True), unset_pointer_freeable = f, big_endian = e\<rparr>
     = Some (Exit 0,
         [Numbers \<lparr>numbers = [12, 4, 3], total_field = 3, average_field = 6\<rparr>,
          Bins [\<lparr>index_field = 0, left_field = 3, count_field = 2, itens_field = [4, 3]\<rparr>]])"
    by (cases e) (simp_all add: main_simps eval_simps upt_rec)
  show ?thesis
    using differ whole unfolding run by simp
qed

section \<open>Properties of the sort, of main and of the reports\<close>

text \<open>
  Claim C7 fails on the code: \<^verbatim>\<open>qsort\<close> is called with \<^verbatim>\<open>sizeof(int)\<close> as the size of an
  element of an array of unsigned shorts. The numbers 1 and 2, followed in the block by
  two cells holding 0, come out as 1 and 2 on either byte order, which is not the
  descending order; the whole run prints them and packs them in that order. (For any
  content of the two other cells, \<^verbatim>\<open>sort_numbers_array_two_cells\<close> shows that the two
  numbers come out unchanged or replaced by that content.)
\<close>

theorem sort_numbers_array_not_descending:
  "take 2 (sort_numbers_array e \<lparr>NUMBERS_QUANTITY = 2, BIN_SIZE = 10\<rparr> [1, 2, 0, 0]) = [1, 2]
   \<and> main 7 [p, 2, 10, 1, 2, 1, 2]
       \<lparr>values_allocated = True, garbage = (\<lambda>_. 0), random_numbers = r,
        allocated = (\<lambda>_. True), unset_pointer_freeable = f, big_endian = e\<rparr>
     = Some (Exit 0,
         [Numbers \<lparr>numbers = [1, 2], total_field = 2, average_field = 1\<rparr>,
          Bins [\<lparr>index_field = 0, left_field = 7, count_field = 2, itens_field = [1, 2]\<rparr>]])"
  by (cases e) (simp_all add: main_simps eval_simps upt_rec)

text \<open>
  Claim C8 fails on the code: when the allocation of the list of bins fails,
  \<^verbatim>\<open>create_empty_bin_list\<close> calls \<^verbatim>\<open>exit(0)\<close>, and the process ends with status 0
  although nothing was packed.
\<close>

theorem main_exit_status_allocation_failure:
  "main 5 [p, 4, 10, 1, 5]
       \<lparr>values_allocated = True, garbage = g, random_numbers = r,
        allocated = (\<lambda>n. 0 < n), unset_pointer_freeable = f, big_endian = e\<rparr>
     = Some (Exit 0, [])"
  by (simp add: main_def pack_and_report_def create_empty_bin_list_alloc_def)

text \<open>
  Claim C9 fails on the code: with no number to pack, \<^verbatim>\<open>print_numbers\<close> divides by
  \<^verbatim>\<open>NUMBERS_QUANTITY\<close>, which is 0, and the process ends there, before the packing.
\<close>

theorem print_numbers_division_by_zero:
  "print_numbers \<lparr>NUMBERS_QUANTITY = 0, BIN_SIZE = 10\<rparr> vs = Inl Division_by_zero
   \<and> main 5 [p, 0, 10, 1, 5]
       \<lparr>values_allocated = True, garbage = g, random_numbers = r,
        allocated = (\<lambda>_. True), unset_pointer_freeable = f, big_endian = e\<rparr>
     = Some (Fault Division_by_zero, [])"
  by (simp add: main_def pack_and_report_def create_empty_bin_list_alloc_def print_numbers_def)

end
